theory Spec2Isabelle
  imports Main "HOL-Library.Sublist"
begin

section \<open>Strings and patterns of \<open>lib/rails_source_maps.js\<close>\<close>

text \<open>
  Paths and file contents are strings. The marker test reads \<open>contents.toString()\<close>; the
  prefix it looks for is plain ASCII and occurs in the decoded text exactly where its
  characters occur in the file. The content table of the reconciler is keyed by
  \<open>contents.toString()\<close> as well; the statements below about the reconciler take the
  table as it is and say nothing about how a key relates to the content of a file.
\<close>

type_synonym path = string

text \<open>\<open>exports.sourceMapPrefix = "\n//# sourceMappingURL="\<close>\<close>

definition sourceMapPrefix :: string where
  "sourceMapPrefix = CHR 0x0A # ''//# sourceMappingURL=''"

text \<open>\<open>String.prototype.indexOf\<close>: the position of the first occurrence, \<open>-1\<close> when there is none.\<close>

fun indexOf :: "string \<Rightarrow> string \<Rightarrow> int" where
  "indexOf [] pat = (if pat = [] then 0 else - 1)"
| "indexOf (c # cs) pat =
     (if prefix pat (c # cs) then 0
      else (let i = indexOf cs pat in if i < 0 then - 1 else i + 1))"

text \<open>\<open>jsfile.replace(/\.js$/, ext)\<close>: only a trailing \<open>.js\<close> is replaced.\<close>

definition replaceJs :: "string \<Rightarrow> path \<Rightarrow> path" where
  "replaceJs ext jsfile =
     (if suffix ''.js'' jsfile then take (length jsfile - 3) jsfile @ ext else jsfile)"

definition original :: "path \<Rightarrow> path" where
  "original jsfile = replaceJs ''.orig.js'' jsfile"

definition sourcemap :: "path \<Rightarrow> path" where
  "sourcemap jsfile = replaceJs ''.js.map'' jsfile"

definition gzipped :: "path \<Rightarrow> path" where
  "gzipped jsfile = replaceJs ''.js.gz'' jsfile"

text \<open>
  \<open>sourcemap.replace(/^((\.\/)?public\/)?/, '/')\<close>: the pattern always matches at position 0,
  with \<open>./public/\<close>, with \<open>public/\<close>, or with the empty string.
\<close>

definition sourceMapUrl :: "path \<Rightarrow> string" where
  "sourceMapUrl jsfile =
     (let sm = sourcemap jsfile in
      if prefix ''./public/'' sm then ''/'' @ drop 9 sm
      else if prefix ''public/'' sm then ''/'' @ drop 7 sm
      else ''/'' @ sm)"

definition sourceMapText :: "path \<Rightarrow> string" where
  "sourceMapText jsfile = sourceMapPrefix @ sourceMapUrl jsfile"

text \<open>
  One match of \<open>/\.?\/?public\/assets\//\<close> at the start of a string: its length. Both optional
  characters are greedy; the literal part starts with \<open>p\<close>, so at most one alternative fits.
\<close>

definition matchPublicAssets :: "string \<Rightarrow> nat option" where
  "matchPublicAssets s =
     (if prefix ''./public/assets/'' s then Some 16
      else if prefix ''.public/assets/'' s then Some 15
      else if prefix ''/public/assets/'' s then Some 15
      else if prefix ''public/assets/'' s then Some 14
      else None)"

text \<open>
  \<open>s.replace(/\.?\/?public\/assets\//g, '/assets/')\<close>: one pass from left to right; after a
  match the scan goes on behind it, and the replacement text is not scanned again.
\<close>

function replacePublicAssets :: "string \<Rightarrow> string" where
  "replacePublicAssets s =
     (if s = [] then []
      else (case matchPublicAssets s of
              Some n \<Rightarrow> ''/assets/'' @ replacePublicAssets (drop n s)
            | None \<Rightarrow> hd s # replacePublicAssets (tl s)))"
  by pat_completeness auto
termination
  by (relation "measure length")
     (auto simp: matchPublicAssets_def split: if_splits)

text \<open>\<open>str.replace(pat, rep)\<close> with a string pattern: the first occurrence only.\<close>

fun replaceFirst :: "string \<Rightarrow> string \<Rightarrow> string \<Rightarrow> string" where
  "replaceFirst pat rep [] = (if pat = [] then rep else [])"
| "replaceFirst pat rep (c # cs) =
     (if prefix pat (c # cs) then rep @ drop (length pat) (c # cs)
      else c # replaceFirst pat rep cs)"

text \<open>\<open>/[0-9a-f]{32}/.test(file)\<close>: \<open>k\<close> counts the hexadecimal characters just read.\<close>

definition isHexChar :: "char \<Rightarrow> bool" where
  "isHexChar c = (c \<in> set ''0123456789abcdef'')"

fun hexRun :: "nat \<Rightarrow> string \<Rightarrow> bool" where
  "hexRun k [] = (32 \<le> k)"
| "hexRun k (c # cs) =
     (if 32 \<le> k then True
      else if isHexChar c then hexRun (Suc k) cs else hexRun 0 cs)"

definition isHashed :: "path \<Rightarrow> bool" where
  "isHashed file = hexRun 0 file"

text \<open>The filter of \<open>run\<close>: \<open>file.match(/\.js$/) && !file.match(/\.orig\.js$/)\<close>.\<close>

definition isJsFile :: "path \<Rightarrow> bool" where
  "isJsFile file = (suffix ''.js'' file \<and> \<not> suffix ''.orig.js'' file)"

section \<open>Files, console, callbacks\<close>

text \<open>
  An error value is what a callback receives as \<open>err\<close> or what a \<open>throw\<close> carries.
  \<open>ENOENT\<close> is the error of \<open>fs\<close> for a path that does not exist: reading or renaming
  such a path reports it. Other failures of the file system (a disk that is full, a
  missing permission) are not part of this model: writing a file creates or replaces it.
\<close>

datatype error =
    AlreadyProcessedError
  | ENOENT path
  | Error string
  | TypeError
  | UglifyError string

text \<open>
  What \<open>originalFileContentHash[contents]\<close> evaluates to: \<open>undefined\<close>, a stored path, or a
  member that the object literal \<open>{}\<close> inherits from \<open>Object.prototype\<close>.
\<close>

datatype jsval = Undefined | Str string | Inherited

text \<open>The lines written by \<open>console.log\<close> and \<open>console.error\<close>, by call site.\<close>

datatype event =
    Skipping path
  | Generating path
  | Reusing path jsval
  | ErrorProcessing path error
  | AllProcessed

record world =
  files :: "path \<rightharpoonup> string"
  console :: "event list"

text \<open>
  How an asynchronous step ends: its callback gets a value (\<open>cb(null, v)\<close>), its callback
  gets an error (\<open>cb(err)\<close>), or an exception leaves the step. The source has no \<open>try\<close>,
  so a thrown exception ends the whole process.
\<close>

datatype 'a outcome = Returned 'a | CbErr error | Thrown error

text \<open>
  The collaborators and options: the \<open>gzip\<close> flag, \<open>uglify.minify\<close> (given the path, the text
  at that path and \<open>outSourceMap\<close>; \<open>Inl\<close> is an exception it throws), the transform of
  \<open>zlib.createGzip()\<close>, and \<open>glob\<close> for the pattern \<open>**/*.orig.js\<close> under the assets path.
\<close>

record env =
  gzip_opt :: bool
  uglify_minify :: "path \<Rightarrow> string \<Rightarrow> string \<Rightarrow> error + (string \<times> string)"
  createGzip :: "string \<Rightarrow> string"
  glob_orig :: "(path \<rightharpoonup> string) \<Rightarrow> path list"

text \<open>\<open>async.waterfall\<close>: the next task runs only when the one before called back without error.\<close>

definition andThen ::
  "'a outcome \<times> world \<Rightarrow> ('a \<Rightarrow> world \<Rightarrow> 'b outcome \<times> world) \<Rightarrow> 'b outcome \<times> world" where
  "andThen r k =
     (case r of
        (Returned v, w) \<Rightarrow> k v w
      | (CbErr e, w) \<Rightarrow> (CbErr e, w)
      | (Thrown e, w) \<Rightarrow> (Thrown e, w))"

definition logEvent :: "event \<Rightarrow> world \<Rightarrow> world" where
  "logEvent ev w = w\<lparr>console := console w @ [ev]\<rparr>"

definition fs_readFile :: "path \<Rightarrow> world \<Rightarrow> string outcome \<times> world" where
  "fs_readFile file w =
     (case files w file of
        None \<Rightarrow> (CbErr (ENOENT file), w)
      | Some contents \<Rightarrow> (Returned contents, w))"

definition fs_rename :: "path \<Rightarrow> path \<Rightarrow> world \<Rightarrow> unit outcome \<times> world" where
  "fs_rename old new w =
     (case files w old of
        None \<Rightarrow> (CbErr (ENOENT old), w)
      | Some contents \<Rightarrow>
          (Returned (), w\<lparr>files := ((files w)(old := None))(new \<mapsto> contents)\<rparr>))"

definition fs_writeFile :: "path \<Rightarrow> string \<Rightarrow> world \<Rightarrow> world" where
  "fs_writeFile file contents w = w\<lparr>files := (files w)(file \<mapsto> contents)\<rparr>"

section \<open>The single-file processor\<close>

definition hasSourceMap :: "path \<Rightarrow> world \<Rightarrow> bool outcome \<times> world" where
  "hasSourceMap file w =
     andThen (fs_readFile file w)
       (\<lambda>contents w1. (Returned (0 \<le> indexOf contents sourceMapPrefix), w1))"

definition raiseAlreadyProcessedIfSourceMap :: "path \<Rightarrow> world \<Rightarrow> unit outcome \<times> world" where
  "raiseAlreadyProcessedIfSourceMap jsfile w =
     andThen (hasSourceMap jsfile w)
       (\<lambda>exists w1.
          if exists then (CbErr AlreadyProcessedError, logEvent (Skipping jsfile) w1)
          else (Returned (), logEvent (Generating jsfile) w1))"

text \<open>
  \<open>exports.gzip\<close>. The streams have no \<open>error\<close> listener, so a source that cannot be read
  is an unhandled \<open>error\<close> event, which throws; \<open>fs.createWriteStream(dest)\<close> has opened
  (and so emptied) the destination by then.
\<close>

definition gzip :: "env \<Rightarrow> path \<Rightarrow> path \<Rightarrow> world \<Rightarrow> unit outcome \<times> world" where
  "gzip env source dest w =
     (if \<not> gzip_opt env then (Returned (), w)
      else (case files w source of
              None \<Rightarrow> (Thrown (ENOENT source), fs_writeFile dest [] w)
            | Some contents \<Rightarrow> (Returned (), fs_writeFile dest (createGzip env contents) w)))"

text \<open>
  \<open>uglify.minify(original, {outSourceMap: sourceMapUrl})\<close> reads the file itself and is
  called synchronously inside a waterfall task: whatever it throws is not caught.
\<close>

definition minify :: "env \<Rightarrow> path \<Rightarrow> string \<Rightarrow> world \<Rightarrow> (string \<times> string) outcome \<times> world" where
  "minify env file url w =
     (case files w file of
        None \<Rightarrow> (Thrown (ENOENT file), w)
      | Some src \<Rightarrow>
          (case uglify_minify env file src url of
             Inl e \<Rightarrow> (Thrown e, w)
           | Inr uglified \<Rightarrow> (Returned uglified, w)))"

text \<open>
  The waterfall of \<open>exports.enqueue\<close>. The two \<open>fs.writeFile\<close> calls are issued together;
  they are taken in the order of issue.
\<close>

definition enqueue_waterfall :: "env \<Rightarrow> path \<Rightarrow> world \<Rightarrow> unit outcome \<times> world" where
  "enqueue_waterfall env jsfile w =
     andThen (raiseAlreadyProcessedIfSourceMap jsfile w) (\<lambda>_ w1.
     andThen (fs_rename jsfile (original jsfile) w1) (\<lambda>_ w2.
     andThen (minify env (original jsfile) (sourceMapUrl jsfile) w2) (\<lambda>uglified w3.
       (let code = replacePublicAssets (fst uglified) @ sourceMapText jsfile;
            smap = replacePublicAssets (snd uglified)
        in gzip env jsfile (gzipped jsfile)
             (fs_writeFile (sourcemap jsfile) smap (fs_writeFile jsfile code w3))))))"

text \<open>The final callback of that waterfall: what the queue's worker reports.\<close>

definition enqueue :: "env \<Rightarrow> path \<Rightarrow> world \<Rightarrow> unit outcome \<times> world" where
  "enqueue env jsfile w =
     (case enqueue_waterfall env jsfile w of
        (Returned _, w1) \<Rightarrow> (Returned (), w1)
      | (CbErr err, w1) \<Rightarrow>
          (if err = AlreadyProcessedError then (Returned (), w1)
           else (CbErr err, logEvent (ErrorProcessing jsfile err) w1))
      | (Thrown err, w1) \<Rightarrow> (Thrown err, w1))"

section \<open>The work queue\<close>

text \<open>
  \<open>async.queue(enqueue, threads)\<close>. The pipelines of two different files that pass the
  filter of \<open>run\<close> touch disjoint paths, so the tasks are taken one after the other, in the
  order of \<open>push\<close>. The queue ignores the error a worker reports and goes on; the list
  returned holds, per task, that error. An uncaught exception ends the process.
\<close>

fun queue :: "env \<Rightarrow> path list \<Rightarrow> world \<Rightarrow> error option list outcome \<times> world" where
  "queue env [] w = (Returned [], w)"
| "queue env (file # rest) w =
     (case enqueue env file w of
        (Returned _, w1) \<Rightarrow> andThen (queue env rest w1) (\<lambda>rs w2. (Returned (None # rs), w2))
      | (CbErr err, w1) \<Rightarrow> andThen (queue env rest w1) (\<lambda>rs w2. (Returned (Some err # rs), w2))
      | (Thrown err, w1) \<Rightarrow> (Thrown err, w1))"

section \<open>The duplicate reconciler\<close>

type_synonym contentHash = "string \<rightharpoonup> path"

text \<open>The property names every object inherits from \<open>Object.prototype\<close>.\<close>

definition objectPrototypeKeys :: "string list" where
  "objectPrototypeKeys =
     [''constructor'', ''hasOwnProperty'', ''isPrototypeOf'', ''propertyIsEnumerable'',
      ''toLocaleString'', ''toString'', ''valueOf'', ''__proto__'',
      ''__defineGetter__'', ''__defineSetter__'', ''__lookupGetter__'', ''__lookupSetter__'']"

text \<open>
  \<open>originalFileContentHash[contents] = file\<close>: an own property, except that assigning a
  string to \<open>__proto__\<close> stores nothing.
\<close>

definition hashSet :: "contentHash \<Rightarrow> string \<Rightarrow> path \<Rightarrow> contentHash" where
  "hashSet h contents file = (if contents = ''__proto__'' then h else h(contents \<mapsto> file))"

text \<open>\<open>originalFileContentHash[contents]\<close>: own properties first, then the inherited ones.\<close>

definition hashGet :: "contentHash \<Rightarrow> string \<Rightarrow> jsval" where
  "hashGet h contents =
     (case h contents of
        Some file \<Rightarrow> Str file
      | None \<Rightarrow> if contents \<in> set objectPrototypeKeys then Inherited else Undefined)"

text \<open>\<open>!sourceOrig\<close>\<close>

fun falsy :: "jsval \<Rightarrow> bool" where
  "falsy Undefined = True"
| "falsy (Str s) = (s = [])"
| "falsy Inherited = False"

text \<open>
  The \<open>async.each\<close> over the \<open>.orig.js\<close> files: every file is read and stored under its
  content, with \<open>toString\<close> taken as the identity. The reads run in parallel and the entry
  of the read that completes last stays; here they complete in the order of the list.
\<close>

fun readOriginals :: "path list \<Rightarrow> contentHash \<Rightarrow> world \<Rightarrow> contentHash outcome \<times> world" where
  "readOriginals [] h w = (Returned h, w)"
| "readOriginals (file # rest) h w =
     andThen (fs_readFile file w) (\<lambda>contents w1. readOriginals rest (hashSet h contents file) w1)"

text \<open>
  \<open>exports.copy\<close>: \<open>fs.createWriteStream(dest)\<close> opens (and so empties) the destination
  whatever happens to the read stream; a source that cannot be read reports its error.
\<close>

definition copy :: "path \<Rightarrow> path \<Rightarrow> world \<Rightarrow> unit outcome \<times> world" where
  "copy source dest w =
     (case files w source of
        None \<Rightarrow> (CbErr (ENOENT source), fs_writeFile dest [] w)
      | Some contents \<Rightarrow>
          (Returned (), fs_writeFile dest (if source = dest then [] else contents) w))"

text \<open>
  \<open>sourceOrig.replace(...)\<close>: a method call on a value that is not a string throws a
  \<open>TypeError\<close>.
\<close>

definition copyFrom :: "jsval \<Rightarrow> string \<Rightarrow> string \<Rightarrow> path \<Rightarrow> world \<Rightarrow> unit outcome \<times> world" where
  "copyFrom sourceOrig pat rep dest w =
     (case sourceOrig of
        Str s \<Rightarrow> copy (replaceFirst pat rep s) dest w
      | _ \<Rightarrow> (Thrown TypeError, w))"

text \<open>The waterfall run for one non-hashed file inside \<open>processNonHashedFiles\<close>.\<close>

definition nonHashed_waterfall ::
  "env \<Rightarrow> contentHash \<Rightarrow> path \<Rightarrow> world \<Rightarrow> unit outcome \<times> world" where
  "nonHashed_waterfall env h jsfile w =
     andThen (raiseAlreadyProcessedIfSourceMap jsfile w) (\<lambda>_ w1.
     andThen (fs_readFile jsfile w1) (\<lambda>contents w2.
     andThen (let sourceOrig = hashGet h contents in
              if falsy sourceOrig
              then (CbErr (Error (''Could not find original hashed file for: '' @ jsfile)), w2)
              else (Returned sourceOrig, logEvent (Reusing jsfile sourceOrig) w2))
       (\<lambda>sourceOrig w3.
     andThen (fs_rename jsfile (original jsfile) w3) (\<lambda>_ w4.
     andThen (copyFrom sourceOrig ''.orig'' [] jsfile w4) (\<lambda>_ w5.
       if \<not> gzip_opt env then (Returned (), w5)
       else copyFrom sourceOrig ''.orig.js'' ''.js.gz'' (gzipped jsfile) w5)))))"

text \<open>Its final callback: \<open>AlreadyProcessedError\<close> is success, any other error is passed on.\<close>

definition nonHashed_iterator ::
  "env \<Rightarrow> contentHash \<Rightarrow> path \<Rightarrow> world \<Rightarrow> unit outcome \<times> world" where
  "nonHashed_iterator env h jsfile w =
     (case nonHashed_waterfall env h jsfile w of
        (CbErr err, w1) \<Rightarrow>
          (if err = AlreadyProcessedError then (Returned (), w1) else (CbErr err, w1))
      | r \<Rightarrow> r)"

text \<open>
  \<open>async.forEachSeries\<close>: one item after the other; the first error ends the series and
  is the result.
\<close>

fun forEachSeries ::
  "(path \<Rightarrow> world \<Rightarrow> unit outcome \<times> world) \<Rightarrow> path list \<Rightarrow> world \<Rightarrow> unit outcome \<times> world" where
  "forEachSeries iterator [] w = (Returned (), w)"
| "forEachSeries iterator (item # rest) w =
     andThen (iterator item w) (\<lambda>_ w1. forEachSeries iterator rest w1)"

definition processNonHashedFiles :: "env \<Rightarrow> path list \<Rightarrow> world \<Rightarrow> unit outcome \<times> world" where
  "processNonHashedFiles env nonHashedFiles w =
     andThen (readOriginals (glob_orig env (files w)) Map.empty w) (\<lambda>h w1.
       forEachSeries (nonHashed_iterator env h) nonHashedFiles w1)"

text \<open>\<open>exports.onQueueDrain\<close>: an error of the reconciler is thrown.\<close>

definition onQueueDrain :: "env \<Rightarrow> path list \<Rightarrow> world \<Rightarrow> unit outcome \<times> world" where
  "onQueueDrain env nonHashedFiles w =
     (case processNonHashedFiles env nonHashedFiles w of
        (Returned _, w1) \<Rightarrow> (Returned (), logEvent AllProcessed w1)
      | (CbErr err, w1) \<Rightarrow> (Thrown err, w1)
      | (Thrown err, w1) \<Rightarrow> (Thrown err, w1))"

section \<open>The driver\<close>

definition hashedFiles :: "path list \<Rightarrow> path list" where
  "hashedFiles globbed = filter isHashed (filter isJsFile globbed)"

definition nonHashedFiles :: "path list \<Rightarrow> path list" where
  "nonHashedFiles globbed = filter (\<lambda>file. \<not> isHashed file) (filter isJsFile globbed)"

text \<open>
  The callback of \<open>glob(assetsPath + "/**/*.js")\<close> in \<open>exports.run\<close>, given the list that
  \<open>glob\<close> found. \<open>drain\<close> fires when the last pushed task has finished; when nothing was
  pushed it never fires.
\<close>

definition run :: "env \<Rightarrow> path list \<Rightarrow> world \<Rightarrow> error option list outcome \<times> world" where
  "run env globbed w =
     (if hashedFiles globbed = [] then (Returned [], w)
      else andThen (queue env (hashedFiles globbed) w) (\<lambda>rs w1.
             andThen (onQueueDrain env (nonHashedFiles globbed) w1) (\<lambda>_ w2. (Returned rs, w2))))"

section \<open>The older variant of the script\<close>

text \<open>\<open>s.slice(-n)\<close>: the last \<open>n\<close> characters; \<open>-0\<close> is \<open>0\<close>, so \<open>n = 0\<close> gives the whole string.\<close>

definition slice_neg :: "nat \<Rightarrow> string \<Rightarrow> string" where
  "slice_neg n s = (if n = 0 then s else drop (length s - n) s)"

text \<open>
  The test in the second script's \<open>enqueue\<close>:
  \<open>contents.slice(-1 * sourceMapText.length) === sourceMapText\<close>, with
  \<open>sourceMapText = "\n//# sourceMappingURL=" + sourceMapUrl\<close>.
\<close>

definition alreadyProcessed_slice :: "path \<Rightarrow> string \<Rightarrow> bool" where
  "alreadyProcessed_slice jsfile contents =
     (slice_neg (length (sourceMapText jsfile)) contents = sourceMapText jsfile)"

text \<open>The test of the first script, as a function of the content (\<open>hasSourceMap\<close>).\<close>

definition alreadyProcessed_indexOf :: "string \<Rightarrow> bool" where
  "alreadyProcessed_indexOf contents = (0 \<le> indexOf contents sourceMapPrefix)"

section \<open>Auxiliary notions for the statements\<close>

text \<open>The four texts that \<open>/\.?\/?public\/assets\//\<close> can match.\<close>

definition matchTexts :: "string list" where
  "matchTexts = [''./public/assets/'', ''.public/assets/'', ''/public/assets/'', ''public/assets/'']"

text \<open>
  The texts at which a replacement joins the characters in front of it into a new
  \<open>public/assets/\<close>: \<open>public\<close> in front of a match, and \<open>public/assets\<close> in front of a
  match that does not begin with \<open>/\<close>.
\<close>

definition joinTexts :: "string list" where
  "joinTexts =
     [''public./public/assets/'', ''public.public/assets/'', ''public/public/assets/'',
      ''publicpublic/assets/'',
      ''public/assets./public/assets/'', ''public/assets.public/assets/'',
      ''public/assetspublic/assets/'']"

definition joinFree :: "string \<Rightarrow> bool" where
  "joinFree s = (\<forall>t \<in> set joinTexts. \<not> sublist t s)"

text \<open>
  The world after the waterfall of \<open>enqueue\<close> ran through for a file with text \<open>contents\<close>
  that \<open>uglify.minify\<close> turned into \<open>uglified\<close>.
\<close>

definition processed :: "env \<Rightarrow> path \<Rightarrow> string \<Rightarrow> string \<times> string \<Rightarrow> world \<Rightarrow> world" where
  "processed env jsfile contents uglified w =
     (let w2 = (logEvent (Generating jsfile) w)
                 \<lparr>files := ((files w)(jsfile := None))(original jsfile \<mapsto> contents)\<rparr>;
          w3 = fs_writeFile (sourcemap jsfile) (replacePublicAssets (snd uglified))
                 (fs_writeFile jsfile
                    (replacePublicAssets (fst uglified) @ sourceMapText jsfile) w2)
      in if gzip_opt env
         then fs_writeFile (gzipped jsfile)
                (createGzip env (replacePublicAssets (fst uglified) @ sourceMapText jsfile)) w3
         else w3)"

text \<open>
  The world after the reconciler looked a file's text up with result \<open>sourceOrig\<close> and
  renamed the file to its \<open>.orig.js\<close> path.
\<close>

definition renamed :: "path \<Rightarrow> string \<Rightarrow> jsval \<Rightarrow> world \<Rightarrow> world" where
  "renamed jsfile contents sourceOrig w =
     (logEvent (Reusing jsfile sourceOrig) (logEvent (Generating jsfile) w))
       \<lparr>files := ((files w)(jsfile := None))(original jsfile \<mapsto> contents)\<rparr>"

definition missText :: "path \<Rightarrow> string" where
  "missText jsfile = ''Could not find original hashed file for: '' @ jsfile"

text \<open>A file is marked when its text contains the prefix that \<open>hasSourceMap\<close> looks for.\<close>

definition marked :: "world \<Rightarrow> path \<Rightarrow> bool" where
  "marked w file = (\<exists>contents. files w file = Some contents \<and> sublist sourceMapPrefix contents)"

definition isOrig :: "path \<Rightarrow> bool" where
  "isOrig p = suffix ''.orig.js'' p"

text \<open>A fingerprinted file that passes the filter and has no \<open>.orig\<close> inside its path.\<close>

definition cleanHashed :: "path \<Rightarrow> bool" where
  "cleanHashed f = (isJsFile f \<and> isHashed f \<and> \<not> sublist ''.orig'' f)"

text \<open>
  Every \<open>.orig.js\<close> file is the original of such a fingerprinted file, and that file is
  marked; the same for every entry of a content table.
\<close>

definition origsOk :: "world \<Rightarrow> bool" where
  "origsOk w = (\<forall>p. isOrig p \<and> files w p \<noteq> None \<longrightarrow>
                  (\<exists>f. p = original f \<and> cleanHashed f \<and> marked w f))"

definition tableOk :: "contentHash \<Rightarrow> world \<Rightarrow> bool" where
  "tableOk h w = (\<forall>c s. h c = Some s \<longrightarrow> (\<exists>f. s = original f \<and> cleanHashed f \<and> marked w f))"

text \<open>The console after one \<open>Skipping\<close> line per file.\<close>

definition skipAll :: "path list \<Rightarrow> world \<Rightarrow> world" where
  "skipAll fs w = w\<lparr>console := console w @ map Skipping fs\<rparr>"

section \<open>Sample inputs\<close>

definition hashedA :: path where
  "hashedA = ''public/assets/app-0123456789abcdef0123456789abcdef.js''"

definition hashedB :: path where
  "hashedB = ''public/assets/lib-fedcba9876543210fedcba9876543210.js''"

definition plainA :: path where
  "plainA = ''public/assets/app.js''"

definition plainB :: path where
  "plainB = ''public/assets/lib.js''"

text \<open>
  A minifier that returns the source unchanged with the map \<open>{}\<close>, a compressor that
  prefixes \<open>gz:\<close>, and a \<open>glob\<close> over the originals of the four sample paths.
\<close>

definition sampleEnv :: env where
  "sampleEnv =
     \<lparr>gzip_opt = True,
      uglify_minify = (\<lambda>file src url. Inr (src, ''{}'')),
      createGzip = (\<lambda>s. ''gz:'' @ s),
      glob_orig = (\<lambda>fs. filter (\<lambda>p. fs p \<noteq> None)
                     [original hashedA, original hashedB, original plainA, original plainB])\<rparr>"

definition sampleWorld :: world where
  "sampleWorld =
     \<lparr>files = [hashedA \<mapsto> ''var a = 1;'', plainA \<mapsto> ''var a = 1;''], console = []\<rparr>"

text \<open>
  A tree with one hashed file, its non-hashed copy and a non-hashed file without a twin;
  the same tree once the queue has processed the hashed file; the content table built then.
\<close>

definition sampleTree :: world where
  "sampleTree =
     \<lparr>files = [hashedA \<mapsto> ''var a = 1;'', plainB \<mapsto> ''var b = 2;'', plainA \<mapsto> ''var a = 1;''],
      console = []\<rparr>"

definition sampleDrained :: world where
  "sampleDrained = processed sampleEnv hashedA ''var a = 1;'' (''var a = 1;'', ''{}'') sampleTree"

definition sampleHash :: contentHash where
  "sampleHash = hashSet Map.empty ''var a = 1;'' (original hashedA)"



text \<open>
  A tree whose assets lie below a directory \<open>public\<close> inside \<open>public\<close>, and one given by an
  absolute root; a fingerprinted file whose text names an asset path.
\<close>

definition doubledPublic :: path where
  "doubledPublic = ''public/public/assets/x-0123456789abcdef0123456789abcdef.js''"

definition absoluteRoot :: path where
  "absoluteRoot = ''/srv/app/public/assets/x-0123456789abcdef0123456789abcdef.js''"

definition rootsWorld :: world where
  "rootsWorld =
     \<lparr>files = [doubledPublic \<mapsto> ''var a = 1;'', absoluteRoot \<mapsto> ''var a = 1;''],
      console = []\<rparr>"

definition assetsWorld :: world where
  "assetsWorld =
     \<lparr>files = [hashedA \<mapsto> ''var a=\"./public/assets/foo.js\";''], console = []\<rparr>"


section \<open>The marker test\<close>

lemma indexOf_sublist: "(0 \<le> indexOf s pat) = sublist pat s"
proof (induction s)
  case Nil
  then show ?case by simp
next
  case (Cons c cs)
  then show ?case
    by (auto simp: sublist_Cons_right Let_def)
qed

lemma sublist_marker_text: "sublist sourceMapPrefix (code @ sourceMapText jsfile)"
  unfolding sourceMapText_def
  by (metis sublist_appendI append.assoc)

lemma raise_marked:
  assumes "files w jsfile = Some contents" "sublist sourceMapPrefix contents"
  shows "raiseAlreadyProcessedIfSourceMap jsfile w
         = (CbErr AlreadyProcessedError, logEvent (Skipping jsfile) w)"
  using assms
  by (simp add: raiseAlreadyProcessedIfSourceMap_def hasSourceMap_def fs_readFile_def
      andThen_def indexOf_sublist)

lemma raise_unmarked:
  assumes "files w jsfile = Some contents" "\<not> sublist sourceMapPrefix contents"
  shows "raiseAlreadyProcessedIfSourceMap jsfile w
         = (Returned (), logEvent (Generating jsfile) w)"
  using assms
  by (simp add: raiseAlreadyProcessedIfSourceMap_def hasSourceMap_def fs_readFile_def
      andThen_def indexOf_sublist)

lemma raise_missing:
  assumes "files w jsfile = None"
  shows "raiseAlreadyProcessedIfSourceMap jsfile w = (CbErr (ENOENT jsfile), w)"
  using assms
  by (simp add: raiseAlreadyProcessedIfSourceMap_def hasSourceMap_def fs_readFile_def
      andThen_def)

lemma sublist_prefix_part: "sublist (a @ b) c \<Longrightarrow> sublist a c"
  by (metis sublist_appendI sublist_order.order.trans append_Nil)

section \<open>The path rewrite\<close>

declare replacePublicAssets.simps [simp del]

lemma rpa_Nil: "replacePublicAssets [] = []"
  by (simp add: replacePublicAssets.simps)

lemma match_nonempty: "matchPublicAssets s = Some n \<Longrightarrow> s \<noteq> []"
  by (auto simp: matchPublicAssets_def)

lemma rpa_match:
  "matchPublicAssets s = Some n \<Longrightarrow>
   replacePublicAssets s = ''/assets/'' @ replacePublicAssets (drop n s)"
  using match_nonempty [of s n]
  by (subst replacePublicAssets.simps) simp

lemma rpa_nomatch:
  "matchPublicAssets (c # cs) = None \<Longrightarrow>
   replacePublicAssets (c # cs) = c # replacePublicAssets cs"
  by (subst replacePublicAssets.simps) simp

lemma match_prefix:
  "matchPublicAssets s = Some n \<Longrightarrow> \<exists>m \<in> set matchTexts. prefix m s \<and> length m = n"
  by (auto simp: matchPublicAssets_def matchTexts_def split: if_splits)

lemma prefix_match:
  "prefix ''public/assets/'' s \<Longrightarrow> matchPublicAssets s = Some 14"
  by (auto simp: matchPublicAssets_def prefix_def)

lemma prefix_rpa:
  "prefix q (replacePublicAssets t) \<Longrightarrow>
   prefix q t \<or> (\<exists>j < length q. take j q = take j t \<and> matchPublicAssets (drop j t) \<noteq> None
        \<and> prefix (drop j q) (''/assets/'' @ replacePublicAssets (drop (j + the (matchPublicAssets (drop j t))) t)))"
proof (induction q arbitrary: t)
  case Nil
  then show ?case by simp
next
  case (Cons a q)
  show ?case
  proof (cases t)
    case Nil
    with Cons.prems show ?thesis by (simp add: rpa_Nil)
  next
    case (Cons c cs)
    show ?thesis
    proof (cases "matchPublicAssets t")
      case None
      with Cons Cons.prems have ac: "a = c" and pq: "prefix q (replacePublicAssets cs)"
        by (simp_all add: rpa_nomatch)
      from Cons.IH [OF pq] show ?thesis
      proof
        assume "prefix q cs"
        then show ?thesis using ac Cons by simp
      next
        assume "\<exists>j<length q. take j q = take j cs \<and> matchPublicAssets (drop j cs) \<noteq> None
            \<and> prefix (drop j q) (''/assets/'' @ replacePublicAssets (drop (j + the (matchPublicAssets (drop j cs))) cs))"
        then obtain j where j: "j < length q" "take j q = take j cs"
          "matchPublicAssets (drop j cs) \<noteq> None"
          "prefix (drop j q) (''/assets/'' @ replacePublicAssets (drop (j + the (matchPublicAssets (drop j cs))) cs))"
          by blast
        have "Suc j < length (a # q) \<and> take (Suc j) (a # q) = take (Suc j) t
           \<and> matchPublicAssets (drop (Suc j) t) \<noteq> None
           \<and> prefix (drop (Suc j) (a # q)) (''/assets/'' @ replacePublicAssets (drop (Suc j + the (matchPublicAssets (drop (Suc j) t))) t))"
          using j ac Cons by simp
        then show ?thesis by blast
      qed
    next
      case (Some n)
      have "0 < length (a # q) \<and> take 0 (a # q) = take 0 t \<and> matchPublicAssets (drop 0 t) \<noteq> None
          \<and> prefix (drop 0 (a # q)) (''/assets/'' @ replacePublicAssets (drop (0 + the (matchPublicAssets (drop 0 t))) t))"
        using Some Cons.prems rpa_match [OF Some] by simp
      then show ?thesis by blast
    qed
  qed
qed

lemma sublist_behind: "sublist xs ys \<Longrightarrow> sublist xs (y # ys)"
  by (simp add: sublist_Cons_right)

lemma not_sublist_Cons:
  "\<not> prefix xs (y # ys) \<Longrightarrow> \<not> sublist xs ys \<Longrightarrow> \<not> sublist xs (y # ys)"
  by (simp add: sublist_Cons_right)

lemma joinFree_drop: "joinFree s \<Longrightarrow> joinFree (drop n s)"
  unfolding joinFree_def
  by (metis sublist_drop sublist_order.order.trans)

lemma joinFree_tl: "joinFree (c # cs) \<Longrightarrow> joinFree cs"
  using joinFree_drop [of "c # cs" 1] by simp

lemma slash_positions:
  assumes "j < 14" "prefix (drop j ''public/assets/'') (''/assets/'' @ r)"
  shows "j = 6 \<or> j = 13"
proof -
  from assms(1) have "j = 0 \<or> j = 1 \<or> j = 2 \<or> j = 3 \<or> j = 4 \<or> j = 5 \<or> j = 6 \<or> j = 7
     \<or> j = 8 \<or> j = 9 \<or> j = 10 \<or> j = 11 \<or> j = 12 \<or> j = 13" by arith
  with assms(2) show ?thesis by auto
qed

lemma take_prefix_sublist:
  assumes "take n s = u" "prefix m (drop n s)"
  shows "prefix (u @ m) s"
proof -
  from assms(2) obtain r where "drop n s = m @ r" by (auto simp: prefix_def)
  then have "s = u @ m @ r" using assms(1) append_take_drop_id [of n s] by simp
  then show ?thesis by simp
qed

lemma no_new_prefix:
  assumes "joinFree s" "matchPublicAssets s = None"
  shows "\<not> prefix ''public/assets/'' (replacePublicAssets s)"
proof
  assume "prefix ''public/assets/'' (replacePublicAssets s)"
  from prefix_rpa [OF this] show False
  proof
    assume "prefix ''public/assets/'' s"
    then show False using prefix_match assms(2) by fastforce
  next
    assume "\<exists>j<length ''public/assets/''. take j ''public/assets/'' = take j s
       \<and> matchPublicAssets (drop j s) \<noteq> None
       \<and> prefix (drop j ''public/assets/'')
            (''/assets/'' @ replacePublicAssets (drop (j + the (matchPublicAssets (drop j s))) s))"
    then obtain j where j0: "j < length ''public/assets/''"
      and j: "take j ''public/assets/'' = take j s"
      "matchPublicAssets (drop j s) \<noteq> None"
      "prefix (drop j ''public/assets/'')
            (''/assets/'' @ replacePublicAssets (drop (j + the (matchPublicAssets (drop j s))) s))"
      by blast
    from j0 have j14: "j < 14" by simp
    from j(2) obtain n where "matchPublicAssets (drop j s) = Some n" by auto
    from match_prefix [OF this] obtain m where m: "m \<in> set matchTexts" "prefix m (drop j s)"
      by blast
    from slash_positions [OF j14 j(3)] show False
    proof
      assume j6: "j = 6"
      have t6: "take 6 s = ''public''" using j(1) j6 by simp
      have d6: "prefix m (drop 6 s)" using m(2) j6 by simp
      have "prefix (''public'' @ m) s"
        using take_prefix_sublist [OF t6 d6] .
      then have "sublist (''public'' @ m) s" by (rule prefix_imp_sublist)
      moreover have "''public'' @ m \<in> set joinTexts"
        using m(1) by (auto simp: matchTexts_def joinTexts_def)
      ultimately show False using assms(1) by (auto simp: joinFree_def)
    next
      assume j13: "j = 13"
      have t13: "take 13 s = ''public/assets''" using j(1) j13 by simp
      have d13: "prefix m (drop 13 s)" using m(2) j13 by simp
      have p: "prefix (''public/assets'' @ m) s"
        using take_prefix_sublist [OF t13 d13] .
      show False
      proof (cases "m = ''/public/assets/''")
        case True
        with p have "prefix ''public/assets/'' s" by (auto simp: prefix_def)
        then show False using prefix_match assms(2) by fastforce
      next
        case False
        from p have "sublist (''public/assets'' @ m) s" by (rule prefix_imp_sublist)
        moreover have "''public/assets'' @ m \<in> set joinTexts"
          using m(1) False by (auto simp: matchTexts_def joinTexts_def)
        ultimately show False using assms(1) by (auto simp: joinFree_def)
      qed
    qed
  qed
qed

lemma sublist_behind_replacement:
  "sublist ''public/assets/'' (''/assets/'' @ r) \<Longrightarrow> sublist ''public/assets/'' r"
  by (simp add: sublist_Cons_right)

lemma rpa_clean: "joinFree s \<Longrightarrow> \<not> sublist ''public/assets/'' (replacePublicAssets s)"
proof (induction s rule: replacePublicAssets.induct)
  case (1 s)
  show ?case
  proof (cases "s = []")
    case True
    then show ?thesis by (simp add: rpa_Nil)
  next
    case False
    then obtain c cs where s: "s = c # cs" by (cases s) auto
    show ?thesis
    proof (cases "matchPublicAssets s")
      case None
      have eq: "replacePublicAssets s = c # replacePublicAssets cs"
        using rpa_nomatch [of c cs] None s by simp
      have "joinFree (tl s)" using "1.prems" s joinFree_tl by simp
      from "1.IH"(1) [OF False None this]
      have a: "\<not> sublist ''public/assets/'' (replacePublicAssets cs)" using s by simp
      have "\<not> prefix ''public/assets/'' (replacePublicAssets s)"
        using no_new_prefix [OF "1.prems" None] .
      then have b: "\<not> prefix ''public/assets/'' (c # replacePublicAssets cs)"
        unfolding eq .
      from not_sublist_Cons [OF b a] show ?thesis unfolding eq .
    next
      case (Some n)
      have eq: "replacePublicAssets s = ''/assets/'' @ replacePublicAssets (drop n s)"
        by (rule rpa_match [OF Some])
      have "joinFree (drop n s)" using "1.prems" by (rule joinFree_drop)
      from "1.IH"(2) [OF False Some this]
      have a: "\<not> sublist ''public/assets/'' (replacePublicAssets (drop n s))" .
      show ?thesis unfolding eq
      proof
        assume "sublist ''public/assets/'' (''/assets/'' @ replacePublicAssets (drop n s))"
        then have "sublist ''public/assets/'' (replacePublicAssets (drop n s))"
          by (rule sublist_behind_replacement)
        with a show False ..
      qed
    qed
  qed
qed

lemma rpa_id: "\<not> sublist ''public/assets/'' s \<Longrightarrow> replacePublicAssets s = s"
proof (induction s)
  case Nil
  then show ?case by (simp add: rpa_Nil)
next
  case (Cons c cs)
  have m: "matchPublicAssets (c # cs) = None"
  proof (cases "matchPublicAssets (c # cs)")
    case (Some n)
    from match_prefix [OF this] obtain m where m: "m \<in> set matchTexts" "prefix m (c # cs)"
      by blast
    have "\<forall>t \<in> set matchTexts. sublist ''public/assets/'' t"
      by (simp add: matchTexts_def sublist_Cons_right)
    then have "sublist ''public/assets/'' m" using m(1) by (rule bspec)
    moreover from m(2) have "sublist m (c # cs)" by (rule prefix_imp_sublist)
    ultimately have "sublist ''public/assets/'' (c # cs)"
      by (rule sublist_order.order.trans)
    with Cons.prems show ?thesis ..
  qed simp
  have "\<not> sublist ''public/assets/'' cs"
  proof
    assume "sublist ''public/assets/'' cs"
    then have "sublist ''public/assets/'' (c # cs)" by (rule sublist_behind)
    with Cons.prems show False ..
  qed
  from Cons.IH [OF this] show ?case unfolding rpa_nomatch [OF m] by simp
qed

lemma match_of_text:
  "m \<in> set matchTexts \<Longrightarrow> matchPublicAssets (m @ v) = Some (length m)"
  by (auto simp: matchTexts_def matchPublicAssets_def)

lemma match_None_iff:
  "(matchPublicAssets t = None) = (\<forall>m \<in> set matchTexts. \<not> prefix m t)"
  by (simp add: matchTexts_def matchPublicAssets_def)

lemma rpa_first_match:
  assumes "m \<in> set matchTexts"
    and "\<forall>i < length u. \<forall>t \<in> set matchTexts. \<not> prefix t (drop i (u @ m @ v))"
  shows "replacePublicAssets (u @ m @ v) = u @ ''/assets/'' @ replacePublicAssets v"
  using assms(2)
proof (induction u)
  case Nil
  from rpa_match [OF match_of_text [OF assms(1), of v]] show ?case by simp
next
  case (Cons c u)
  from Cons.prems have "\<forall>t \<in> set matchTexts. \<not> prefix t (drop 0 ((c # u) @ m @ v))" by blast
  then have "matchPublicAssets (c # (u @ m @ v)) = None" by (simp add: match_None_iff)
  then have eq: "replacePublicAssets (c # (u @ m @ v)) = c # replacePublicAssets (u @ m @ v)"
    by (rule rpa_nomatch)
  have "\<forall>i < length u. \<forall>t \<in> set matchTexts. \<not> prefix t (drop i (u @ m @ v))"
  proof (intro allI impI)
    fix i assume "i < length u"
    then have "Suc i < length (c # u)" by simp
    with Cons.prems have "\<forall>t \<in> set matchTexts. \<not> prefix t (drop (Suc i) ((c # u) @ m @ v))"
      by blast
    then show "\<forall>t \<in> set matchTexts. \<not> prefix t (drop i (u @ m @ v))" by simp
  qed
  from Cons.IH [OF this] eq show ?case by simp
qed

lemma p_position:
  assumes "m \<in> set matchTexts" "k < length m" "m ! k = CHR ''p''"
  shows "k + 14 = length m"
proof -
  from assms(1) have l: "length m \<le> 16" by (auto simp: matchTexts_def)
  with assms(2) have "k = 0 \<or> k = 1 \<or> k = 2 \<or> k = 3 \<or> k = 4 \<or> k = 5 \<or> k = 6 \<or> k = 7
     \<or> k = 8 \<or> k = 9 \<or> k = 10 \<or> k = 11 \<or> k = 12 \<or> k = 13 \<or> k = 14 \<or> k = 15" by arith
  with assms show ?thesis by (auto simp: matchTexts_def)
qed

lemma drop_exact: "length xs = n \<Longrightarrow> drop n (xs @ ys) = ys"
  by simp

lemma rpa_occurrence:
  "s = u @ ''public/assets/'' @ v \<Longrightarrow>
   \<exists>u'. replacePublicAssets s = u' @ ''/assets/'' @ replacePublicAssets v"
proof (induction s arbitrary: u rule: replacePublicAssets.induct)
  case (1 s)
  have ne: "s \<noteq> []" using "1.prems" by simp
  show ?case
  proof (cases "matchPublicAssets s")
    case None
    have "u \<noteq> []"
    proof
      assume "u = []"
      with "1.prems" have "prefix ''public/assets/'' s" by simp
      from prefix_match [OF this] None show False by simp
    qed
    then obtain c u1 where u: "u = c # u1" by (cases u) auto
    with "1.prems" have tl: "tl s = u1 @ ''public/assets/'' @ v" and s: "s = c # tl s" by simp_all
    from "1.IH"(1) [OF ne None tl] obtain u' where
      "replacePublicAssets (tl s) = u' @ ''/assets/'' @ replacePublicAssets v" by blast
    moreover have "replacePublicAssets s = c # replacePublicAssets (tl s)"
      using rpa_nomatch [of c "tl s"] None s by simp
    ultimately have "replacePublicAssets s = (c # u') @ ''/assets/'' @ replacePublicAssets v"
      by simp
    then show ?thesis by blast
  next
    case (Some n)
    from match_prefix [OF Some] obtain m where m: "m \<in> set matchTexts" "prefix m s" "length m = n"
      by blast
    have eq: "replacePublicAssets s = ''/assets/'' @ replacePublicAssets (drop n s)"
      by (rule rpa_match [OF Some])
    show ?thesis
    proof (cases "length u < n")
      case True
      from m(2) obtain r where r: "s = m @ r" by (auto simp: prefix_def)
      have "s ! length u = CHR ''p''" using "1.prems" by (simp add: nth_append)
      moreover have "s ! length u = m ! length u" using r True m(3) by (simp add: nth_append)
      ultimately have "m ! length u = CHR ''p''" by simp
      from p_position [OF m(1) _ this] True m(3) have "length u + 14 = n" by simp
      then have "length (u @ ''public/assets/'') = n" by simp
      then have "drop n ((u @ ''public/assets/'') @ v) = v" by (rule drop_exact)
      moreover have "s = (u @ ''public/assets/'') @ v" using "1.prems" by simp
      ultimately have "drop n s = v" by (simp only:)
      with eq have "replacePublicAssets s = [] @ ''/assets/'' @ replacePublicAssets v" by simp
      then show ?thesis by blast
    next
      case False
      then have "drop n s = drop n u @ ''public/assets/'' @ v" using "1.prems" by simp
      from "1.IH"(2) [OF ne Some this] obtain u' where
        "replacePublicAssets (drop n s) = u' @ ''/assets/'' @ replacePublicAssets v" by blast
      with eq have "replacePublicAssets s = (''/assets/'' @ u') @ ''/assets/'' @ replacePublicAssets v"
        by simp
      then show ?thesis by blast
    qed
  qed
qed

lemma rpa_foo_js: "replacePublicAssets (''foo.js'' @ r) = ''foo.js'' @ replacePublicAssets r"
proof -
  have "\<And>a t. a \<noteq> CHR ''.'' \<Longrightarrow> a \<noteq> CHR ''/'' \<Longrightarrow> a \<noteq> CHR ''p'' \<Longrightarrow>
          matchPublicAssets (a # t) = None"
    by (simp add: matchPublicAssets_def)
  then have n: "\<And>a t. a \<noteq> CHR ''.'' \<Longrightarrow> a \<noteq> CHR ''/'' \<Longrightarrow> a \<noteq> CHR ''p'' \<Longrightarrow>
          replacePublicAssets (a # t) = a # replacePublicAssets t"
    by (simp add: rpa_nomatch)
  have d: "replacePublicAssets (CHR ''.'' # CHR ''j'' # CHR ''s'' # r)
             = CHR ''.'' # replacePublicAssets (CHR ''j'' # CHR ''s'' # r)"
    by (rule rpa_nomatch) (simp add: matchPublicAssets_def)
  show ?thesis by (simp add: n d)
qed

lemma rpa_spec_example:
  assumes "sublist ''public/assets/foo.js'' s"
  shows "sublist ''/assets/foo.js'' (replacePublicAssets s)"
proof -
  from assms obtain u v where "s = u @ ''public/assets/foo.js'' @ v" by (auto simp: sublist_def)
  then have "s = u @ ''public/assets/'' @ (''foo.js'' @ v)" by simp
  from rpa_occurrence [OF this] obtain u' where
    "replacePublicAssets s = u' @ ''/assets/'' @ replacePublicAssets (''foo.js'' @ v)" by blast
  then have "replacePublicAssets s = u' @ ''/assets/foo.js'' @ replacePublicAssets v"
    using rpa_foo_js [of v] by simp
  then show ?thesis by (metis sublist_appendI)
qed

section \<open>Paths of the artifacts\<close>

lemma suffix_js_not_others:
  assumes "suffix ''.js'' p"
  shows "\<not> suffix ''.js.map'' p" "\<not> suffix ''.js.gz'' p"
proof -
  { fix t assume "suffix t p"
    with assms have "suffix ''.js'' t \<or> suffix t ''.js''" by (rule suffix_same_cases) }
  note * = this
  show "\<not> suffix ''.js.map'' p" using * [of "''.js.map''"] by (auto simp: suffix_def)
  show "\<not> suffix ''.js.gz'' p" using * [of "''.js.gz''"] by (auto simp: suffix_def)
qed

lemma replaceJs_suffix: "suffix ''.js'' f \<Longrightarrow> suffix ext (replaceJs ext f)"
  by (auto simp: replaceJs_def suffix_def)

lemma original_suffix: "suffix ''.js'' f \<Longrightarrow> suffix ''.orig.js'' (original f)"
  by (simp add: original_def replaceJs_suffix)

lemma sourcemap_suffix: "suffix ''.js'' f \<Longrightarrow> suffix ''.js.map'' (sourcemap f)"
  by (simp add: sourcemap_def replaceJs_suffix)

lemma gzipped_suffix: "suffix ''.js'' f \<Longrightarrow> suffix ''.js.gz'' (gzipped f)"
  by (simp add: gzipped_def replaceJs_suffix)

lemma isJsFile_not_artifact:
  assumes "isJsFile p" "suffix ''.js'' f"
  shows "p \<noteq> original f" "p \<noteq> sourcemap f" "p \<noteq> gzipped f"
  using assms original_suffix [of f] sourcemap_suffix [of f] gzipped_suffix [of f]
    suffix_js_not_others [of p]
  by (auto simp: isJsFile_def)

lemma artifacts_distinct:
  assumes "suffix ''.js'' f"
  shows "original f \<noteq> sourcemap f" "original f \<noteq> gzipped f" "sourcemap f \<noteq> gzipped f"
    "f \<noteq> sourcemap f" "f \<noteq> gzipped f"
proof -
  have o: "suffix ''.js'' (original f)"
    using original_suffix [OF assms] by (auto simp: suffix_def)
  show "original f \<noteq> sourcemap f" using suffix_js_not_others(1) [OF o] sourcemap_suffix [OF assms] by auto
  show "original f \<noteq> gzipped f" using suffix_js_not_others(2) [OF o] gzipped_suffix [OF assms] by auto
  show "sourcemap f \<noteq> gzipped f"
    using assms by (auto simp: sourcemap_def gzipped_def replaceJs_def)
  show "f \<noteq> sourcemap f" using suffix_js_not_others(1) [OF assms] sourcemap_suffix [OF assms] by auto
  show "f \<noteq> gzipped f" using suffix_js_not_others(2) [OF assms] gzipped_suffix [OF assms] by auto
qed

section \<open>The four ways the waterfall of \<open>enqueue\<close> ends\<close>

lemma enqueue_waterfall_missing:
  "files w jsfile = None \<Longrightarrow> enqueue_waterfall env jsfile w = (CbErr (ENOENT jsfile), w)"
  by (simp add: enqueue_waterfall_def raise_missing andThen_def)

lemma enqueue_waterfall_marked:
  "files w jsfile = Some contents \<Longrightarrow> sublist sourceMapPrefix contents \<Longrightarrow>
   enqueue_waterfall env jsfile w = (CbErr AlreadyProcessedError, logEvent (Skipping jsfile) w)"
  by (simp add: enqueue_waterfall_def raise_marked andThen_def)

lemma enqueue_waterfall_thrown:
  "files w jsfile = Some contents \<Longrightarrow> \<not> sublist sourceMapPrefix contents \<Longrightarrow>
   uglify_minify env (original jsfile) contents (sourceMapUrl jsfile) = Inl e \<Longrightarrow>
   enqueue_waterfall env jsfile w =
     (Thrown e, (logEvent (Generating jsfile) w)
                 \<lparr>files := ((files w)(jsfile := None))(original jsfile \<mapsto> contents)\<rparr>)"
  by (simp add: enqueue_waterfall_def raise_unmarked andThen_def fs_rename_def logEvent_def
      minify_def)

lemma enqueue_waterfall_processed:
  assumes "files w jsfile = Some contents" "\<not> sublist sourceMapPrefix contents"
    "uglify_minify env (original jsfile) contents (sourceMapUrl jsfile) = Inr uglified"
    "suffix ''.js'' jsfile"
  shows "enqueue_waterfall env jsfile w = (Returned (), processed env jsfile contents uglified w)"
  using assms artifacts_distinct [OF assms(4)]
  by (simp add: enqueue_waterfall_def raise_unmarked andThen_def fs_rename_def logEvent_def
      minify_def gzip_def fs_writeFile_def processed_def Let_def)

lemma enqueue_waterfall_Returned:
  assumes "enqueue_waterfall env jsfile w = (Returned (), w')" "suffix ''.js'' jsfile"
  shows "\<exists>contents uglified. files w jsfile = Some contents
      \<and> \<not> sublist sourceMapPrefix contents
      \<and> uglify_minify env (original jsfile) contents (sourceMapUrl jsfile) = Inr uglified
      \<and> w' = processed env jsfile contents uglified w"
proof (cases "files w jsfile")
  case None
  with assms show ?thesis by (simp add: enqueue_waterfall_missing)
next
  case (Some contents)
  show ?thesis
  proof (cases "sublist sourceMapPrefix contents")
    case True
    with Some assms show ?thesis by (simp add: enqueue_waterfall_marked)
  next
    case False
    show ?thesis
    proof (cases "uglify_minify env (original jsfile) contents (sourceMapUrl jsfile)")
      case (Inl e)
      with Some False assms show ?thesis by (simp add: enqueue_waterfall_thrown)
    next
      case (Inr uglified)
      from enqueue_waterfall_processed [OF Some False Inr assms(2)] assms(1)
      have "w' = processed env jsfile contents uglified w" by simp
      with Some False Inr show ?thesis by blast
    qed
  qed
qed

lemma processed_jsfile:
  "suffix ''.js'' jsfile \<Longrightarrow>
   files (processed env jsfile contents uglified w) jsfile
     = Some (replacePublicAssets (fst uglified) @ sourceMapText jsfile)"
  using artifacts_distinct [of jsfile]
  by (simp add: processed_def Let_def fs_writeFile_def)

lemma sourceMapUrl_slash: "prefix ''/'' (sourceMapUrl jsfile)"
  by (simp add: sourceMapUrl_def Let_def)

section \<open>The ways the waterfall of the reconciler ends\<close>

lemma nonHashed_waterfall_missing:
  "files w jsfile = None \<Longrightarrow> nonHashed_waterfall env h jsfile w = (CbErr (ENOENT jsfile), w)"
  by (simp add: nonHashed_waterfall_def raise_missing andThen_def)

lemma nonHashed_waterfall_marked:
  "files w jsfile = Some contents \<Longrightarrow> sublist sourceMapPrefix contents \<Longrightarrow>
   nonHashed_waterfall env h jsfile w
     = (CbErr AlreadyProcessedError, logEvent (Skipping jsfile) w)"
  by (simp add: nonHashed_waterfall_def raise_marked andThen_def)

lemma nonHashed_waterfall_miss:
  "files w jsfile = Some contents \<Longrightarrow> \<not> sublist sourceMapPrefix contents \<Longrightarrow>
   falsy (hashGet h contents) \<Longrightarrow>
   nonHashed_waterfall env h jsfile w
     = (CbErr (Error (missText jsfile)), logEvent (Generating jsfile) w)"
  by (simp add: nonHashed_waterfall_def raise_unmarked andThen_def fs_readFile_def
      logEvent_def missText_def)

lemma nonHashed_waterfall_found:
  "files w jsfile = Some contents \<Longrightarrow> \<not> sublist sourceMapPrefix contents \<Longrightarrow>
   \<not> falsy (hashGet h contents) \<Longrightarrow>
   nonHashed_waterfall env h jsfile w
     = andThen (copyFrom (hashGet h contents) ''.orig'' [] jsfile
                  (renamed jsfile contents (hashGet h contents) w))
         (\<lambda>_ w5. if \<not> gzip_opt env then (Returned (), w5)
                  else copyFrom (hashGet h contents) ''.orig.js'' ''.js.gz'' (gzipped jsfile) w5)"
  by (simp add: nonHashed_waterfall_def raise_unmarked andThen_def fs_readFile_def
      logEvent_def fs_rename_def renamed_def Let_def)

lemma copy_other:
  "copy source dest w = (r, w') \<Longrightarrow> p \<noteq> dest \<Longrightarrow> files w' p = files w p"
  by (auto simp: copy_def fs_writeFile_def split: option.splits)

lemma copyFrom_other:
  "copyFrom v pat rep dest w = (r, w') \<Longrightarrow> p \<noteq> dest \<Longrightarrow> files w' p = files w p"
  by (cases v) (auto simp: copyFrom_def dest: copy_other)

lemma renamed_other:
  "p \<noteq> jsfile \<Longrightarrow> p \<noteq> original jsfile \<Longrightarrow> files (renamed jsfile contents v w) p = files w p"
  by (simp add: renamed_def logEvent_def)

lemma nonHashed_waterfall_other:
  assumes "nonHashed_waterfall env h jsfile w = (r, w')"
    and "p \<noteq> jsfile" "p \<noteq> original jsfile" "p \<noteq> gzipped jsfile"
  shows "files w' p = files w p"
proof (cases "files w jsfile")
  case None
  with assms(1) show ?thesis by (simp add: nonHashed_waterfall_missing)
next
  case (Some contents)
  show ?thesis
  proof (cases "sublist sourceMapPrefix contents")
    case True
    with Some assms(1) show ?thesis by (auto simp: nonHashed_waterfall_marked logEvent_def)
  next
    case False
    note unmarked = this
    show ?thesis
    proof (cases "falsy (hashGet h contents)")
      case True
      with Some unmarked assms(1) show ?thesis
        by (auto simp: nonHashed_waterfall_miss logEvent_def)
    next
      case False
      obtain r1 w1 where c1: "copyFrom (hashGet h contents) ''.orig'' [] jsfile
                  (renamed jsfile contents (hashGet h contents) w) = (r1, w1)"
        by (cases "copyFrom (hashGet h contents) ''.orig'' [] jsfile
                  (renamed jsfile contents (hashGet h contents) w)") auto
      have f1: "files w1 p = files w p"
        using copyFrom_other [OF c1 assms(2)] renamed_other [OF assms(2,3)] by simp
      obtain r2 w2 where c2: "copyFrom (hashGet h contents) ''.orig.js'' ''.js.gz'' (gzipped jsfile) w1 = (r2, w2)"
        by (cases "copyFrom (hashGet h contents) ''.orig.js'' ''.js.gz'' (gzipped jsfile) w1") auto
      have f2: "files w2 p = files w p"
        using copyFrom_other [OF c2 assms(4)] f1 by simp
      have "w' = w1 \<or> w' = w2"
        using assms(1) nonHashed_waterfall_found [OF Some unmarked False, of env] c1 c2
        by (cases r1) (auto simp: andThen_def split: if_splits)
      with f1 f2 show ?thesis by auto
    qed
  qed
qed

lemma nonHashed_iterator_world:
  "nonHashed_iterator env h jsfile w = (r, w') \<Longrightarrow>
   \<exists>r0. nonHashed_waterfall env h jsfile w = (r0, w')"
  by (cases "nonHashed_waterfall env h jsfile w")
     (auto simp: nonHashed_iterator_def split: outcome.splits if_splits)

lemma nonHashed_iterator_other:
  assumes "nonHashed_iterator env h jsfile w = (r, w')"
    and "p \<noteq> jsfile" "p \<noteq> original jsfile" "p \<noteq> gzipped jsfile"
  shows "files w' p = files w p"
  using nonHashed_iterator_world [OF assms(1)] nonHashed_waterfall_other assms(2-4) by blast



section \<open>Errors in the queue and in the reconciler loop\<close>

lemma readOriginals_world: "readOriginals fs h w = (r, w') \<Longrightarrow> w' = w"
  by (induction fs arbitrary: h) (auto simp: andThen_def fs_readFile_def split: option.splits)


section \<open>Reuse of the twin's output\<close>

lemma prefix_Cons_append:
  "prefix (a # p) (u @ v) \<Longrightarrow>
   u = [] \<and> prefix (a # p) v \<or> (\<exists>u'. u = a # u' \<and> prefix p (u' @ v))"
  by (cases u) auto

lemma orig_prefix_end:
  assumes "prefix ''.orig'' (u @ ''.orig.js'')"
  shows "u = [] \<or> prefix ''.orig'' u"
proof -
  from prefix_Cons_append [OF assms] show ?thesis
  proof (elim disjE conjE exE)
    fix u1 assume u: "u = CHR ''.'' # u1" and p: "prefix ''orig'' (u1 @ ''.orig.js'')"
    from prefix_Cons_append [OF p] obtain u2 where u1: "u1 = CHR ''o'' # u2"
      and p2: "prefix ''rig'' (u2 @ ''.orig.js'')" by auto
    from prefix_Cons_append [OF p2] obtain u3 where u2: "u2 = CHR ''r'' # u3"
      and p3: "prefix ''ig'' (u3 @ ''.orig.js'')" by auto
    from prefix_Cons_append [OF p3] obtain u4 where u3: "u3 = CHR ''i'' # u4"
      and p4: "prefix ''g'' (u4 @ ''.orig.js'')" by auto
    from prefix_Cons_append [OF p4] obtain u5 where u4: "u4 = CHR ''g'' # u5" by auto
    show ?thesis using u u1 u2 u3 u4 by simp
  qed simp
qed

lemma replaceFirst_skip:
  "\<not> prefix pat (c # cs) \<Longrightarrow> replaceFirst pat rep (c # cs) = c # replaceFirst pat rep cs"
  by simp

lemma replaceFirst_orig:
  "\<not> sublist ''.orig'' (u @ ''.js'') \<Longrightarrow> replaceFirst ''.orig'' [] (u @ ''.orig.js'') = u @ ''.js''"
proof (induction u)
  case Nil
  then show ?case by simp
next
  case (Cons c u)
  have np: "\<not> prefix ''.orig'' (c # (u @ ''.orig.js''))"
  proof
    assume "prefix ''.orig'' (c # (u @ ''.orig.js''))"
    then have "prefix ''.orig'' ((c # u) @ ''.orig.js'')" by (simp only: append_Cons)
    from orig_prefix_end [OF this] have "prefix ''.orig'' (c # u)" by simp
    then have "prefix ''.orig'' ((c # u) @ ''.js'')" by (rule prefix_prefix)
    then have "sublist ''.orig'' ((c # u) @ ''.js'')" by (rule prefix_imp_sublist)
    with Cons.prems show False ..
  qed
  have "\<not> sublist ''.orig'' (u @ ''.js'')"
  proof
    assume "sublist ''.orig'' (u @ ''.js'')"
    then have "sublist ''.orig'' (c # u @ ''.js'')" by (rule sublist_behind)
    with Cons.prems show False by simp
  qed
  from Cons.IH [OF this]
  have ih: "replaceFirst ''.orig'' [] (u @ ''.orig.js'') = u @ ''.js''" .
  from np have "replaceFirst ''.orig'' [] (c # (u @ ''.orig.js''))
               = c # replaceFirst ''.orig'' [] (u @ ''.orig.js'')"
    by (rule replaceFirst_skip)
  with ih show ?case by (simp only: append_Cons)
qed

lemma replaceFirst_original:
  assumes "suffix ''.js'' twin" "\<not> sublist ''.orig'' twin"
  shows "replaceFirst ''.orig'' [] (original twin) = twin"
proof -
  from assms(1) obtain u where u: "twin = u @ ''.js''" by (auto simp: suffix_def)
  with assms(1) have "original twin = u @ ''.orig.js''" by (simp add: original_def replaceJs_def)
  with replaceFirst_orig [of u] assms(2) u show ?thesis by simp
qed

lemma original_nonempty: "suffix ''.js'' f \<Longrightarrow> original f \<noteq> []"
  using original_suffix [of f] by (auto simp: suffix_def)


lemma waterfall_reuses:
  assumes "nonHashed_waterfall env h jsfile w = (r, w')"
    and "files w jsfile = Some raw" and "\<not> sublist sourceMapPrefix raw"
    and "h raw = Some (original twin)"
    and "isJsFile jsfile" and "isJsFile twin" and "twin \<noteq> jsfile"
    and "\<not> sublist ''.orig'' twin" and "files w twin = Some final"
  shows "files w' jsfile = Some final"
proof -
  have sj: "suffix ''.js'' jsfile" and st: "suffix ''.js'' twin"
    using assms(5,6) by (simp_all add: isJsFile_def)
  have g: "hashGet h raw = Str (original twin)" using assms(4) by (simp add: hashGet_def)
  have nf: "\<not> falsy (hashGet h raw)" using g original_nonempty [OF st] by simp
  let ?W = "renamed jsfile raw (Str (original twin)) w"
  have "files ?W twin = files w twin"
    using assms(7) isJsFile_not_artifact(1) [OF assms(6) sj] by (rule renamed_other)
  then have ft: "files ?W twin = Some final" using assms(9) by simp
  have c1: "copyFrom (Str (original twin)) ''.orig'' [] jsfile ?W
              = (Returned (), fs_writeFile jsfile final ?W)"
    using ft assms(7) replaceFirst_original [OF st assms(8)] by (simp add: copyFrom_def copy_def)
  let ?W1 = "fs_writeFile jsfile final ?W"
  have f1: "files ?W1 jsfile = Some final" by (simp add: fs_writeFile_def)
  have eq: "(r, w') = (if \<not> gzip_opt env then (Returned (), ?W1)
                       else copyFrom (Str (original twin)) ''.orig.js'' ''.js.gz'' (gzipped jsfile) ?W1)"
    using nonHashed_waterfall_found [OF assms(2,3) nf, of env] assms(1) g c1
    by (simp add: andThen_def)
  show ?thesis
  proof (cases "gzip_opt env")
    case False
    with eq f1 show ?thesis by simp
  next
    case True
    with eq have "copyFrom (Str (original twin)) ''.orig.js'' ''.js.gz'' (gzipped jsfile) ?W1 = (r, w')"
      by simp
    from copyFrom_other [OF this artifacts_distinct(5) [OF sj]] f1 show ?thesis by simp
  qed
qed

lemma iterator_frame_js:
  assumes "nonHashed_iterator env h x w = (r, w')" and "isJsFile x" and "isJsFile p" and "p \<noteq> x"
  shows "files w' p = files w p"
proof -
  have sx: "suffix ''.js'' x" using assms(2) by (simp add: isJsFile_def)
  from nonHashed_iterator_other [OF assms(1) assms(4)
      isJsFile_not_artifact(1) [OF assms(3) sx] isJsFile_not_artifact(3) [OF assms(3) sx]]
  show ?thesis .
qed




section \<open>Marks after a run without failures\<close>

lemma isOrig_not_js: "isOrig p \<Longrightarrow> \<not> isJsFile p"
  by (simp add: isOrig_def isJsFile_def)

lemma isOrig_not_artifact:
  assumes "isOrig p" "suffix ''.js'' f"
  shows "p \<noteq> sourcemap f" "p \<noteq> gzipped f"
proof -
  from assms(1) have "suffix ''.js'' p" by (auto simp: isOrig_def suffix_def)
  from suffix_js_not_others [OF this] sourcemap_suffix [OF assms(2)] gzipped_suffix [OF assms(2)]
  show "p \<noteq> sourcemap f" "p \<noteq> gzipped f" by auto
qed

lemma processed_other:
  "p \<noteq> f \<Longrightarrow> p \<noteq> original f \<Longrightarrow> p \<noteq> sourcemap f \<Longrightarrow> p \<noteq> gzipped f \<Longrightarrow>
   files (processed env f c u w) p = files w p"
  by (simp add: processed_def Let_def fs_writeFile_def logEvent_def)

lemma processed_marked:
  "suffix ''.js'' f \<Longrightarrow> marked (processed env f c u w) f"
  using processed_jsfile [of f env c u w] sublist_marker_text [of "replacePublicAssets (fst u)" f]
  by (simp add: marked_def)

lemma enqueue_Returned_cases:
  assumes "enqueue env f w = (Returned (), w')" and "suffix ''.js'' f"
  shows "(marked w f \<and> w' = logEvent (Skipping f) w)
       \<or> (\<exists>c u. files w f = Some c \<and> w' = processed env f c u w)"
proof (cases "files w f")
  case None
  with assms(1) show ?thesis by (simp add: enqueue_def enqueue_waterfall_missing)
next
  case (Some c)
  show ?thesis
  proof (cases "sublist sourceMapPrefix c")
    case True
    with Some assms(1) show ?thesis
      by (auto simp: enqueue_def enqueue_waterfall_marked marked_def)
  next
    case False
    show ?thesis
    proof (cases "uglify_minify env (original f) c (sourceMapUrl f)")
      case (Inl e)
      with Some False assms(1) show ?thesis by (simp add: enqueue_def enqueue_waterfall_thrown)
    next
      case (Inr u)
      from enqueue_waterfall_processed [OF Some False Inr assms(2)] assms(1)
      have "w' = processed env f c u w" by (simp add: enqueue_def)
      with Some show ?thesis by blast
    qed
  qed
qed

lemma enqueue_step:
  assumes "enqueue env f w = (Returned (), w')" and "cleanHashed f" and "origsOk w"
  shows "marked w' f" and "\<forall>p. isJsFile p \<and> marked w p \<longrightarrow> marked w' p" and "origsOk w'"
proof -
  have jf: "isJsFile f" using assms(2) by (simp add: cleanHashed_def)
  then have sf: "suffix ''.js'' f" by (simp add: isJsFile_def)
  from enqueue_Returned_cases [OF assms(1) sf]
  have "marked w' f \<and> (\<forall>p. isJsFile p \<and> marked w p \<longrightarrow> marked w' p) \<and> origsOk w'"
  proof (elim disjE conjE exE)
    assume m: "marked w f" and w': "w' = logEvent (Skipping f) w"
    then have "files w' = files w" by (simp add: logEvent_def)
    then have "\<And>p. marked w' p = marked w p" by (simp add: marked_def)
    with m assms(3) show ?thesis by (simp add: origsOk_def \<open>files w' = files w\<close>)
  next
    fix c u assume c: "files w f = Some c" and w': "w' = processed env f c u w"
    have mf: "marked w' f" using w' processed_marked [OF sf] by simp
    have keep: "\<forall>p. isJsFile p \<and> marked w p \<longrightarrow> marked w' p"
    proof (intro allI impI, elim conjE)
      fix p assume jp: "isJsFile p" and mp: "marked w p"
      show "marked w' p"
      proof (cases "p = f")
        case True with mf show ?thesis by simp
      next
        case False
        from processed_other [OF False isJsFile_not_artifact [OF jp sf]]
        have "files w' p = files w p" using w' by simp
        with mp show ?thesis by (simp add: marked_def)
      qed
    qed
    have "origsOk w'"
      unfolding origsOk_def
    proof (intro allI impI, elim conjE)
      fix p assume op: "isOrig p" and ex: "files w' p \<noteq> None"
      show "\<exists>g. p = original g \<and> cleanHashed g \<and> marked w' g"
      proof (cases "p = original f")
        case True
        with assms(2) mf show ?thesis by blast
      next
        case False
        have "p \<noteq> f" using op jf isOrig_not_js by blast
        from processed_other [OF this False isOrig_not_artifact [OF op sf]]
        have "files w' p = files w p" using w' by simp
        with ex op assms(3) obtain g where g: "p = original g" "cleanHashed g" "marked w g"
          unfolding origsOk_def by metis
        then have "isJsFile g" by (simp add: cleanHashed_def)
        with g(3) keep have "marked w' g" by blast
        with g show ?thesis by blast
      qed
    qed
    with mf keep show ?thesis by simp
  qed
  then show "marked w' f" and "\<forall>p. isJsFile p \<and> marked w p \<longrightarrow> marked w' p" and "origsOk w'"
    by simp_all
qed

lemma queue_marks:
  assumes "queue env fs w = (Returned rs, w')" and "\<forall>r \<in> set rs. r = None"
    and "\<forall>f \<in> set fs. cleanHashed f" and "origsOk w"
  shows "(\<forall>f \<in> set fs. marked w' f) \<and> (\<forall>p. isJsFile p \<and> marked w p \<longrightarrow> marked w' p)
       \<and> origsOk w'"
  using assms
proof (induction fs arbitrary: w rs)
  case Nil
  then show ?case by simp
next
  case (Cons f fs)
  obtain r1 w1 where e: "enqueue env f w = (r1, w1)" by (cases "enqueue env f w") auto
  obtain r2 w2 where q: "queue env fs w1 = (r2, w2)" by (cases "queue env fs w1") auto
  from Cons.prems(1,2) e q have r1: "r1 = Returned ()"
    by (cases r1; cases r2) (auto simp: andThen_def)
  with Cons.prems(1,2) e q obtain rs' where rs': "r2 = Returned rs'" "rs = None # rs'" "w2 = w'"
    by (cases r2) (auto simp: andThen_def)
  have cf: "cleanHashed f" using Cons.prems(3) by simp
  note st = enqueue_step [OF e [unfolded r1] cf Cons.prems(4)]
  have "queue env fs w1 = (Returned rs', w')" using q rs' by simp
  moreover have "\<forall>r \<in> set rs'. r = None" using Cons.prems(2) rs' by simp
  moreover have "\<forall>f \<in> set fs. cleanHashed f" using Cons.prems(3) by simp
  ultimately have ih: "(\<forall>f \<in> set fs. marked w' f)
       \<and> (\<forall>p. isJsFile p \<and> marked w1 p \<longrightarrow> marked w' p) \<and> origsOk w'"
    using Cons.IH st(3) by blast
  have "isJsFile f" using cf by (simp add: cleanHashed_def)
  with st(1) ih have "marked w' f" by blast
  moreover have "\<forall>p. isJsFile p \<and> marked w p \<longrightarrow> marked w' p" using st(2) ih by blast
  ultimately show ?case using ih by simp
qed

lemma readOriginals_range:
  "readOriginals fs h0 w = (Returned h, w') \<Longrightarrow> h c = Some s \<Longrightarrow>
   h0 c = Some s \<or> s \<in> set fs"
proof (induction fs arbitrary: h0)
  case Nil
  then show ?case by simp
next
  case (Cons f fs)
  from Cons.prems(1) obtain contents
    where r: "readOriginals fs (hashSet h0 contents f) w = (Returned h, w')"
    by (auto simp: andThen_def fs_readFile_def split: option.splits)
  from Cons.IH [OF r Cons.prems(2)] show ?case
    by (auto simp: hashSet_def split: if_splits)
qed

lemma readOriginals_total:
  "\<forall>p \<in> set fs. files w p \<noteq> None \<Longrightarrow> \<exists>h. readOriginals fs h0 w = (Returned h, w)"
  by (induction fs arbitrary: h0) (auto simp: andThen_def fs_readFile_def)

lemma tableOk_from_origs:
  assumes "readOriginals (glob_orig env (files w)) Map.empty w = (Returned h, w')"
    and "\<forall>fs. \<forall>p \<in> set (glob_orig env fs). fs p \<noteq> None \<and> suffix ''.orig.js'' p"
    and "origsOk w"
  shows "tableOk h w"
  unfolding tableOk_def
proof (intro allI impI)
  fix c s assume "h c = Some s"
  from readOriginals_range [OF assms(1) this] have "s \<in> set (glob_orig env (files w))" by simp
  with assms(2) have "files w s \<noteq> None" "isOrig s" by (auto simp: isOrig_def)
  with assms(3) show "\<exists>f. s = original f \<and> cleanHashed f \<and> marked w f"
    unfolding origsOk_def by blast
qed

lemma iterator_step:
  assumes "nonHashed_iterator env h x w = (Returned (), w')"
    and "isJsFile x" and "\<not> isHashed x" and "tableOk h w"
  shows "marked w' x" and "\<forall>p. isJsFile p \<and> marked w p \<longrightarrow> marked w' p"
proof -
  have keep: "\<And>p. isJsFile p \<Longrightarrow> p \<noteq> x \<Longrightarrow> files w' p = files w p"
    using iterator_frame_js [OF assms(1,2)] by blast
  have mx: "marked w' x"
  proof (cases "files w x")
    case None
    with assms(1) show ?thesis
      by (simp add: nonHashed_iterator_def nonHashed_waterfall_missing)
  next
    case (Some c)
    show ?thesis
    proof (cases "sublist sourceMapPrefix c")
      case True
      with Some assms(1) have "w' = logEvent (Skipping x) w"
        by (simp add: nonHashed_iterator_def nonHashed_waterfall_marked)
      with Some True show ?thesis by (simp add: marked_def logEvent_def)
    next
      case False
      note unmarked = this
      show ?thesis
      proof (cases "hashGet h c")
        case Undefined
        with Some unmarked assms(1) show ?thesis
          by (simp add: nonHashed_iterator_def nonHashed_waterfall_miss)
      next
        case Inherited
        then have "\<not> falsy (hashGet h c)" by simp
        from nonHashed_waterfall_found [OF Some unmarked this, of env] Inherited assms(1)
        show ?thesis by (simp add: nonHashed_iterator_def copyFrom_def andThen_def)
      next
        case (Str s)
        then have hs: "h c = Some s" by (auto simp: hashGet_def split: option.splits if_splits)
        with assms(4) obtain f where f: "s = original f" "cleanHashed f" "marked w f"
          unfolding tableOk_def by blast
        from f(3) obtain final where fin: "files w f = Some final" "sublist sourceMapPrefix final"
          by (auto simp: marked_def)
        have fx: "f \<noteq> x" using f(2) assms(3) by (auto simp: cleanHashed_def)
        from nonHashed_iterator_world [OF assms(1)] obtain r0
          where wf: "nonHashed_waterfall env h x w = (r0, w')" by blast
        have "files w' x = Some final"
          using waterfall_reuses [OF wf Some unmarked _ assms(2) _ fx _ fin(1)] hs f(1,2)
          by (simp add: cleanHashed_def)
        with fin(2) show ?thesis by (simp add: marked_def)
      qed
    qed
  qed
  then show "marked w' x" .
  show "\<forall>p. isJsFile p \<and> marked w p \<longrightarrow> marked w' p"
  proof (intro allI impI, elim conjE)
    fix p assume jp: "isJsFile p" and mp: "marked w p"
    show "marked w' p"
    proof (cases "p = x")
      case True with mx show ?thesis by simp
    next
      case False
      from keep [OF jp False] mp show ?thesis by (simp add: marked_def)
    qed
  qed
qed

lemma tableOk_keep:
  "tableOk h w \<Longrightarrow> \<forall>p. isJsFile p \<and> marked w p \<longrightarrow> marked w' p \<Longrightarrow> tableOk h w'"
  unfolding tableOk_def cleanHashed_def by blast

lemma series_marks:
  assumes "forEachSeries (nonHashed_iterator env h) xs w = (Returned (), w')"
    and "\<forall>x \<in> set xs. isJsFile x \<and> \<not> isHashed x" and "tableOk h w"
  shows "(\<forall>x \<in> set xs. marked w' x) \<and> (\<forall>p. isJsFile p \<and> marked w p \<longrightarrow> marked w' p)"
  using assms
proof (induction xs arbitrary: w)
  case Nil
  then show ?case by simp
next
  case (Cons x xs)
  obtain r1 w1 where s: "nonHashed_iterator env h x w = (r1, w1)"
    by (cases "nonHashed_iterator env h x w") auto
  from Cons.prems(1) s have r1: "r1 = Returned ()" by (cases r1) (auto simp: andThen_def)
  with Cons.prems(1) s have rest: "forEachSeries (nonHashed_iterator env h) xs w1 = (Returned (), w')"
    by (simp add: andThen_def)
  have jx: "isJsFile x" and nx: "\<not> isHashed x" using Cons.prems(2) by simp_all
  note st = iterator_step [OF s [unfolded r1] jx nx Cons.prems(3)]
  have t1: "tableOk h w1" using tableOk_keep [OF Cons.prems(3) st(2)] .
  have "\<forall>x \<in> set xs. isJsFile x \<and> \<not> isHashed x" using Cons.prems(2) by simp
  from Cons.IH [OF rest this t1]
  have ih: "(\<forall>x \<in> set xs. marked w' x) \<and> (\<forall>p. isJsFile p \<and> marked w1 p \<longrightarrow> marked w' p)" .
  with st(1) jx have "marked w' x" by blast
  moreover have "\<forall>p. isJsFile p \<and> marked w p \<longrightarrow> marked w' p" using st(2) ih by blast
  ultimately show ?case using ih by simp
qed

lemma skipAll_simps:
  "skipAll [] w = w" "skipAll fs (logEvent (Skipping f) w) = skipAll (f # fs) w"
  "files (skipAll fs w) = files w"
  by (simp_all add: skipAll_def logEvent_def)

lemma marked_log: "marked (logEvent ev w) p = marked w p"
  by (simp add: marked_def logEvent_def)

lemma enqueue_marked:
  "marked w f \<Longrightarrow> enqueue env f w = (Returned (), logEvent (Skipping f) w)"
  by (auto simp: marked_def enqueue_def enqueue_waterfall_marked)

lemma iterator_marked:
  "marked w f \<Longrightarrow> nonHashed_iterator env h f w = (Returned (), logEvent (Skipping f) w)"
  by (auto simp: marked_def nonHashed_iterator_def nonHashed_waterfall_marked)

lemma queue_skips:
  "\<forall>f \<in> set fs. marked w f \<Longrightarrow>
   queue env fs w = (Returned (map (\<lambda>_. None) fs), skipAll fs w)"
proof (induction fs arbitrary: w)
  case Nil
  then show ?case by (simp add: skipAll_simps)
next
  case (Cons f fs)
  have "\<forall>g \<in> set fs. marked (logEvent (Skipping f) w) g" using Cons.prems by (simp add: marked_log)
  from Cons.IH [OF this] Cons.prems show ?case
    by (simp add: enqueue_marked andThen_def skipAll_simps)
qed

lemma series_skips:
  "\<forall>f \<in> set fs. marked w f \<Longrightarrow>
   forEachSeries (nonHashed_iterator env h) fs w = (Returned (), skipAll fs w)"
proof (induction fs arbitrary: w)
  case Nil
  then show ?case by (simp add: skipAll_simps)
next
  case (Cons f fs)
  have "\<forall>g \<in> set fs. marked (logEvent (Skipping f) w) g" using Cons.prems by (simp add: marked_log)
  from Cons.IH [OF this] Cons.prems show ?case
    by (simp add: iterator_marked andThen_def skipAll_simps)
qed

lemma drain_skips:
  assumes "\<forall>fs. \<forall>p \<in> set (glob_orig env fs). fs p \<noteq> None \<and> suffix ''.orig.js'' p"
    and "\<forall>f \<in> set xs. marked w f"
  shows "onQueueDrain env xs w = (Returned (), logEvent AllProcessed (skipAll xs w))"
proof -
  from assms(1) have "\<forall>p \<in> set (glob_orig env (files w)). files w p \<noteq> None" by blast
  from readOriginals_total [OF this] obtain h
    where "readOriginals (glob_orig env (files w)) Map.empty w = (Returned h, w)" by blast
  then show ?thesis
    using series_skips [OF assms(2)]
    by (simp add: onQueueDrain_def processNonHashedFiles_def andThen_def)
qed

lemma hashedFiles_clean:
  "\<forall>f \<in> set globbed. \<not> sublist ''.orig'' f \<Longrightarrow> \<forall>f \<in> set (hashedFiles globbed). cleanHashed f"
  by (auto simp: hashedFiles_def cleanHashed_def)

lemma nonHashedFiles_js:
  "\<forall>x \<in> set (nonHashedFiles globbed). isJsFile x \<and> \<not> isHashed x"
  by (auto simp: nonHashedFiles_def)

lemma second_run_skips:
  assumes glob: "\<forall>fs. \<forall>p \<in> set (glob_orig env fs). fs p \<noteq> None \<and> suffix ''.orig.js'' p"
    and fresh: "\<forall>p. suffix ''.orig.js'' p \<longrightarrow> files w p = None"
    and clean: "\<forall>f \<in> set globbed. \<not> sublist ''.orig'' f"
    and some: "hashedFiles globbed \<noteq> []"
    and run1: "run env globbed w = (Returned rs, w1)"
    and ok: "\<forall>r \<in> set rs. r = None"
  shows "(\<forall>f \<in> set (hashedFiles globbed) \<union> set (nonHashedFiles globbed). marked w1 f)
       \<and> run env globbed w1
           = (Returned (map (\<lambda>_. None) (hashedFiles globbed)),
              logEvent AllProcessed
                (skipAll (nonHashedFiles globbed) (skipAll (hashedFiles globbed) w1)))"
proof -
  let ?H = "hashedFiles globbed" and ?N = "nonHashedFiles globbed"
  obtain rq wq where q: "queue env ?H w = (rq, wq)" by (cases "queue env ?H w") auto
  obtain rd wd where d: "onQueueDrain env ?N wq = (rd, wd)"
    by (cases "onQueueDrain env ?N wq") auto
  from run1 some q have rq: "rq = Returned rs"
    by (cases rq; cases rd) (auto simp: run_def andThen_def d)
  with run1 some q d have rd: "rd = Returned ()" and wd: "wd = w1"
    by (cases rd; auto simp: run_def andThen_def)+
  obtain rp wp where p: "processNonHashedFiles env ?N wq = (rp, wp)"
    by (cases "processNonHashedFiles env ?N wq") auto
  from d rd wd p have rp: "rp = Returned ()" and w1: "w1 = logEvent AllProcessed wp"
    by (cases rp; auto simp: onQueueDrain_def)+
  obtain rh wh where h: "readOriginals (glob_orig env (files wq)) Map.empty wq = (rh, wh)"
    by (cases "readOriginals (glob_orig env (files wq)) Map.empty wq") auto
  from p rp h obtain tab where tab: "rh = Returned tab"
    by (cases rh) (auto simp: processNonHashedFiles_def andThen_def)
  from readOriginals_world [OF h] have wh: "wh = wq" .
  from p rp h tab wh have s: "forEachSeries (nonHashed_iterator env tab) ?N wq = (Returned (), wp)"
    by (simp add: processNonHashedFiles_def andThen_def)
  have o0: "origsOk w" using fresh by (auto simp: origsOk_def isOrig_def)
  from queue_marks [OF q [unfolded rq] ok hashedFiles_clean [OF clean] o0]
  have mq: "\<forall>f \<in> set ?H. marked wq f" and oq: "origsOk wq" by simp_all
  have tq: "tableOk tab wq" using tableOk_from_origs [OF h [unfolded tab] glob oq] .
  from series_marks [OF s nonHashedFiles_js tq]
  have mn: "\<forall>x \<in> set ?N. marked wp x" and kp: "\<forall>p. isJsFile p \<and> marked wq p \<longrightarrow> marked wp p"
    by simp_all
  have "\<forall>f \<in> set ?H. isJsFile f" by (auto simp: hashedFiles_def)
  with mq kp have mh: "\<forall>f \<in> set ?H. marked wp f" by blast
  have m1: "\<forall>f \<in> set ?H \<union> set ?N. marked w1 f" using mh mn w1 by (auto simp: marked_log)
  then have a: "\<forall>f \<in> set ?H. marked w1 f" by blast
  have "\<forall>f \<in> set ?N. marked (skipAll ?H w1) f"
    using m1 by (simp add: marked_def skipAll_simps)
  from drain_skips [OF glob this] queue_skips [OF a, of env] some m1
  show ?thesis by (simp add: run_def andThen_def)
qed

section \<open>The site path of the source map\<close>

lemma sourceMapUrl_cases:
  "\<exists>pre rest. sourcemap jsfile = pre @ rest \<and> sourceMapUrl jsfile = ''/'' @ rest
     \<and> (pre = ''./public/'' \<or> pre = ''public/'' \<or>
          pre = [] \<and> \<not> prefix ''./public/'' rest \<and> \<not> prefix ''public/'' rest)"
proof (cases "prefix ''./public/'' (sourcemap jsfile)")
  case True
  then obtain r where r: "sourcemap jsfile = ''./public/'' @ r" by (auto simp: prefix_def)
  then have "sourceMapUrl jsfile = ''/'' @ r" by (simp add: sourceMapUrl_def)
  with r show ?thesis by blast
next
  case False
  note n1 = this
  show ?thesis
  proof (cases "prefix ''public/'' (sourcemap jsfile)")
    case True
    then obtain r where r: "sourcemap jsfile = ''public/'' @ r" by (auto simp: prefix_def)
    then have "sourceMapUrl jsfile = ''/'' @ r" using n1 by (simp add: sourceMapUrl_def)
    with r show ?thesis by blast
  next
    case False
    with n1 have "sourceMapUrl jsfile = ''/'' @ sourcemap jsfile" by (simp add: sourceMapUrl_def)
    with n1 False show ?thesis by (metis append_Nil)
  qed
qed

lemma sourceMapUrl_public_again:
  "prefix ''public/'' (tl (sourceMapUrl jsfile))
     = (prefix ''public/public/'' (sourcemap jsfile) \<or> prefix ''./public/public/'' (sourcemap jsfile))"
proof (cases "prefix ''./public/'' (sourcemap jsfile)")
  case True
  then obtain r where r: "sourcemap jsfile = ''./public/'' @ r" by (auto simp: prefix_def)
  then have "sourceMapUrl jsfile = ''/'' @ r" by (simp add: sourceMapUrl_def)
  with r show ?thesis by simp
next
  case False
  note n1 = this
  show ?thesis
  proof (cases "prefix ''public/'' (sourcemap jsfile)")
    case True
    then obtain r where r: "sourcemap jsfile = ''public/'' @ r" by (auto simp: prefix_def)
    then have "sourceMapUrl jsfile = ''/'' @ r" using n1 by (simp add: sourceMapUrl_def)
    with r show ?thesis by simp
  next
    case False
    with n1 have u: "sourceMapUrl jsfile = ''/'' @ sourcemap jsfile" by (simp add: sourceMapUrl_def)
    have a: "\<not> prefix ''public/public/'' (sourcemap jsfile)"
    proof
      assume "prefix ''public/public/'' (sourcemap jsfile)"
      then have "prefix ''public/'' (sourcemap jsfile)" by (auto simp: prefix_def)
      with False show False ..
    qed
    have b: "\<not> prefix ''./public/public/'' (sourcemap jsfile)"
    proof
      assume "prefix ''./public/public/'' (sourcemap jsfile)"
      then have "prefix ''./public/'' (sourcemap jsfile)" by (auto simp: prefix_def)
      with n1 show False ..
    qed
    from u False a b show ?thesis by simp
  qed
qed

lemma enqueue_waterfall_writes:
  assumes "enqueue_waterfall env jsfile w = (Returned (), w')" and "suffix ''.js'' jsfile"
  shows "\<exists>contents code smap.
           files w jsfile = Some contents
         \<and> uglify_minify env (original jsfile) contents (sourceMapUrl jsfile) = Inr (code, smap)
         \<and> files w' jsfile = Some (replacePublicAssets code @ sourceMapText jsfile)
         \<and> files w' (sourcemap jsfile) = Some (replacePublicAssets smap)"
proof -
  from enqueue_waterfall_Returned [OF assms] obtain contents uglified
    where c: "files w jsfile = Some contents"
      and u: "uglify_minify env (original jsfile) contents (sourceMapUrl jsfile) = Inr uglified"
      and w': "w' = processed env jsfile contents uglified w" by blast
  obtain code smap where cs: "uglified = (code, smap)" by (cases uglified)
  have f: "files w' jsfile = Some (replacePublicAssets code @ sourceMapText jsfile)"
    using processed_jsfile [OF assms(2), of env contents uglified w] w' cs by simp
  have m: "files w' (sourcemap jsfile) = Some (replacePublicAssets smap)"
    using w' cs artifacts_distinct [OF assms(2)]
    by (simp add: processed_def Let_def fs_writeFile_def)
  from c u cs f m show ?thesis by blast
qed

section \<open>The queue after a failure\<close>








section \<open>Reuse once the loop reaches the file\<close>


section \<open>Facts about the sample inputs\<close>


lemma unmarked_b: "\<not> sublist sourceMapPrefix ''var b = 2;''"
  by code_simp

lemma sample_suffix:
  "suffix ''.js'' hashedA" "suffix ''.js'' hashedB" "suffix ''.js'' plainA" "suffix ''.js'' plainB"
  by code_simp+

lemma sample_drained_files:
  "files sampleDrained hashedA = Some (replacePublicAssets ''var a = 1;'' @ sourceMapText hashedA)"
  "files sampleDrained (original hashedA) = Some ''var a = 1;''"
  "files sampleDrained (original hashedB) = None"
  "files sampleDrained (original plainA) = None"
  "files sampleDrained (original plainB) = None"
  "files sampleDrained plainA = Some ''var a = 1;''"
  "files sampleDrained plainB = Some ''var b = 2;''"
  by code_simp+



lemma sampleHash_b: "sampleHash ''var b = 2;'' = None"
  by (simp add: sampleHash_def hashSet_def)

lemma not_inherited_b: "''var b = 2;'' \<notin> set objectPrototypeKeys"
  by code_simp


lemma sample_glob_sound:
  "\<forall>fs. \<forall>p \<in> set (glob_orig sampleEnv fs). fs p \<noteq> None \<and> suffix ''.orig.js'' p"
proof -
  have "suffix ''.orig.js'' (original hashedA)" "suffix ''.orig.js'' (original hashedB)"
    "suffix ''.orig.js'' (original plainA)" "suffix ''.orig.js'' (original plainB)"
    by code_simp+
  then show ?thesis by (auto simp: sampleEnv_def)
qed

lemma sampleWorld_fresh: "\<forall>p. suffix ''.orig.js'' p \<longrightarrow> files sampleWorld p = None"
proof (intro allI impI)
  fix p assume s: "suffix ''.orig.js'' p"
  have "\<not> suffix ''.orig.js'' hashedA" "\<not> suffix ''.orig.js'' plainA" by code_simp+
  with s have "p \<noteq> hashedA" "p \<noteq> plainA" by auto
  then show "files sampleWorld p = None" by (simp add: sampleWorld_def)
qed

section \<open>Claims about the single-file processor\<close>

text \<open>
  Claim C3. A file whose current content contains the already-processed marker (the
  prefix followed by a map path) makes the waterfall of the single-file processor end with
  the \<open>AlreadyProcessedError\<close> signal, the worker reports success, and nothing but the
  console line changes: the file table is the one from before, so there is no rename, no
  written file and no gzip output.
\<close>

theorem already_processed_no_side_effects:
  assumes "files w jsfile = Some contents"
    and "sublist (sourceMapPrefix @ url) contents"
  shows "enqueue_waterfall env jsfile w
           = (CbErr AlreadyProcessedError, logEvent (Skipping jsfile) w)
       \<and> enqueue env jsfile w = (Returned (), logEvent (Skipping jsfile) w)
       \<and> files (logEvent (Skipping jsfile) w) = files w"
proof -
  have "sublist sourceMapPrefix contents"
    using assms(2) by (rule sublist_prefix_part)
  then show ?thesis
    using assms(1)
    by (simp add: enqueue_def enqueue_waterfall_def raise_marked andThen_def logEvent_def)
qed

theorem already_processed_no_side_effects_witness:
  "files (fs_writeFile hashedA (''var a=1;'' @ sourceMapText hashedA) sampleWorld) hashedA
     = Some (''var a=1;'' @ sourceMapText hashedA)
   \<and> sublist (sourceMapPrefix @ sourceMapUrl hashedA) (''var a=1;'' @ sourceMapText hashedA)
   \<and> enqueue sampleEnv hashedA
        (fs_writeFile hashedA (''var a=1;'' @ sourceMapText hashedA) sampleWorld)
      = (Returned (), logEvent (Skipping hashedA)
           (fs_writeFile hashedA (''var a=1;'' @ sourceMapText hashedA) sampleWorld))"
proof -
  have f: "files (fs_writeFile hashedA (''var a=1;'' @ sourceMapText hashedA) sampleWorld) hashedA
     = Some (''var a=1;'' @ sourceMapText hashedA)"
    by (simp add: fs_writeFile_def)
  have s: "sublist (sourceMapPrefix @ sourceMapUrl hashedA) (''var a=1;'' @ sourceMapText hashedA)"
    unfolding sourceMapText_def by (rule sublist_append_leftI)
  from already_processed_no_side_effects [OF f s, of sampleEnv] f s show ?thesis by blast
qed

text \<open>
  Claim C4, as stated, fails: the replacement is one pass from left to right and its output
  is not scanned again, so \<open>public\<close> in front of a match joins the replacement into a new
  \<open>public/assets/\<close>. A dot alone in front of \<open>public/assets/\<close> belongs to the match as
  well and goes with it.
\<close>

theorem replacePublicAssets_leaves_pattern:
  "replacePublicAssets ''x=\"public/public/assets/foo.js\"'' = ''x=\"public/assets/foo.js\"''
   \<and> sublist ''public/assets/'' (replacePublicAssets ''x=\"public/public/assets/foo.js\"'')
   \<and> replacePublicAssets ''a.public/assets/b'' = ''a/assets/b''"
  by code_simp

text \<open>
  Claim C4, amended. The rewrite is one pass from left to right over the minified code and
  over the source map, and both results are written, the code followed by the marker. A
  text without \<open>public/assets/\<close> is left as it is. The leftmost match of \<open>public/assets/\<close>
  with an optional leading \<open>.\<close>, \<open>/\<close> or \<open>./\<close> is replaced by \<open>/assets/\<close>; the text in front
  of it is kept and the text behind it is rewritten in the same way. So every occurrence
  of \<open>public/assets/\<close> gives an \<open>/assets/\<close> in the output, followed by the rewritten rest,
  and \<open>public/assets/foo.js\<close> gives \<open>/assets/foo.js\<close>. For every input in which neither
  \<open>public\<close> stands directly in front of a match nor \<open>public/assets\<close> directly in front of a
  match that begins with \<open>.\<close> or \<open>p\<close>, the output contains no \<open>public/assets/\<close>.
\<close>

theorem replacePublicAssets_replaces_every_match:
  "(enqueue_waterfall env jsfile w = (Returned (), w') \<and> suffix ''.js'' jsfile \<longrightarrow>
      (\<exists>contents code smap.
          files w jsfile = Some contents
        \<and> uglify_minify env (original jsfile) contents (sourceMapUrl jsfile) = Inr (code, smap)
        \<and> files w' jsfile = Some (replacePublicAssets code @ sourceMapText jsfile)
        \<and> files w' (sourcemap jsfile) = Some (replacePublicAssets smap)))
   \<and> (\<not> sublist ''public/assets/'' s0 \<longrightarrow> replacePublicAssets s0 = s0)
   \<and> (m \<in> set matchTexts
        \<and> (\<forall>i < length u. \<forall>t \<in> set matchTexts. \<not> prefix t (drop i (u @ m @ v)))
        \<longrightarrow> replacePublicAssets (u @ m @ v) = u @ ''/assets/'' @ replacePublicAssets v)
   \<and> (\<exists>p'. replacePublicAssets (p @ ''public/assets/'' @ q)
               = p' @ ''/assets/'' @ replacePublicAssets q)
   \<and> (sublist ''public/assets/foo.js'' s1
        \<longrightarrow> sublist ''/assets/foo.js'' (replacePublicAssets s1))
   \<and> (joinFree s \<longrightarrow> \<not> sublist ''public/assets/'' (replacePublicAssets s))"
proof (intro conjI impI)
  assume "enqueue_waterfall env jsfile w = (Returned (), w') \<and> suffix ''.js'' jsfile"
  then have "enqueue_waterfall env jsfile w = (Returned (), w')" and "suffix ''.js'' jsfile"
    by simp_all
  then show "\<exists>contents code smap.
          files w jsfile = Some contents
        \<and> uglify_minify env (original jsfile) contents (sourceMapUrl jsfile) = Inr (code, smap)
        \<and> files w' jsfile = Some (replacePublicAssets code @ sourceMapText jsfile)
        \<and> files w' (sourcemap jsfile) = Some (replacePublicAssets smap)"
    by (rule enqueue_waterfall_writes)
next
  assume "\<not> sublist ''public/assets/'' s0"
  then show "replacePublicAssets s0 = s0" by (rule rpa_id)
next
  assume a: "m \<in> set matchTexts
        \<and> (\<forall>i < length u. \<forall>t \<in> set matchTexts. \<not> prefix t (drop i (u @ m @ v)))"
  from a have a1: "m \<in> set matchTexts" by (rule conjunct1)
  from a have a2: "\<forall>i < length u. \<forall>t \<in> set matchTexts. \<not> prefix t (drop i (u @ m @ v))"
    by (rule conjunct2)
  from a1 a2 show "replacePublicAssets (u @ m @ v) = u @ ''/assets/'' @ replacePublicAssets v"
    by (rule rpa_first_match)
next
  show "\<exists>p'. replacePublicAssets (p @ ''public/assets/'' @ q)
               = p' @ ''/assets/'' @ replacePublicAssets q"
    by (rule rpa_occurrence [OF refl])
next
  assume "sublist ''public/assets/foo.js'' s1"
  then show "sublist ''/assets/foo.js'' (replacePublicAssets s1)" by (rule rpa_spec_example)
next
  assume "joinFree s"
  then show "\<not> sublist ''public/assets/'' (replacePublicAssets s)" by (rule rpa_clean)
qed

theorem replacePublicAssets_replaces_every_match_witness:
  "fst (enqueue_waterfall sampleEnv hashedA assetsWorld) = Returned ()
   \<and> suffix ''.js'' hashedA
   \<and> files assetsWorld hashedA = Some ''var a=\"./public/assets/foo.js\";''
   \<and> files (snd (enqueue_waterfall sampleEnv hashedA assetsWorld)) hashedA
       = Some (''var a=\"/assets/foo.js\";'' @ sourceMapText hashedA)
   \<and> files (snd (enqueue_waterfall sampleEnv hashedA assetsWorld)) (sourcemap hashedA)
       = Some ''{}''
   \<and> (\<exists>code smap.
          uglify_minify sampleEnv (original hashedA) ''var a=\"./public/assets/foo.js\";''
              (sourceMapUrl hashedA) = Inr (code, smap)
        \<and> files (snd (enqueue_waterfall sampleEnv hashedA assetsWorld)) hashedA
            = Some (replacePublicAssets code @ sourceMapText hashedA)
        \<and> files (snd (enqueue_waterfall sampleEnv hashedA assetsWorld)) (sourcemap hashedA)
            = Some (replacePublicAssets smap))
   \<and> \<not> sublist ''public/assets/'' ''var b = 2;''
   \<and> replacePublicAssets ''var b = 2;'' = ''var b = 2;''
   \<and> ''./public/assets/'' \<in> set matchTexts
   \<and> replacePublicAssets (''var a=\"'' @ ''./public/assets/'' @ ''foo.js\";'')
       = ''var a=\"'' @ ''/assets/'' @ replacePublicAssets ''foo.js\";''
   \<and> sublist ''public/assets/foo.js'' ''var a=\"./public/assets/foo.js\";''
   \<and> sublist ''/assets/foo.js'' (replacePublicAssets ''var a=\"./public/assets/foo.js\";'')
   \<and> joinFree ''var a=\"./public/assets/foo.js\";''
   \<and> \<not> sublist ''public/assets/'' (replacePublicAssets ''var a=\"./public/assets/foo.js\";'')"
proof -
  obtain r w' where rw: "enqueue_waterfall sampleEnv hashedA assetsWorld = (r, w')"
    by (cases "enqueue_waterfall sampleEnv hashedA assetsWorld")
  have "fst (enqueue_waterfall sampleEnv hashedA assetsWorld) = Returned ()" by code_simp
  with rw have r: "r = Returned ()" by simp
  have h1: "enqueue_waterfall sampleEnv hashedA assetsWorld = (Returned (), w')"
    using rw r by simp
  have w': "snd (enqueue_waterfall sampleEnv hashedA assetsWorld) = w'" using rw by simp
  have h2: "suffix ''.js'' hashedA" by (rule sample_suffix(1))
  have f: "files assetsWorld hashedA = Some ''var a=\"./public/assets/foo.js\";''"
    by code_simp
  have o1: "files (snd (enqueue_waterfall sampleEnv hashedA assetsWorld)) hashedA
       = Some (''var a=\"/assets/foo.js\";'' @ sourceMapText hashedA)" by code_simp
  have o2: "files (snd (enqueue_waterfall sampleEnv hashedA assetsWorld)) (sourcemap hashedA)
       = Some ''{}''" by code_simp
  have h3: "\<not> sublist ''public/assets/'' ''var b = 2;''" by code_simp
  have h4: "''./public/assets/'' \<in> set matchTexts" by code_simp
  have h5: "\<forall>i < length ''var a=\"''. \<forall>t \<in> set matchTexts.
         \<not> prefix t (drop i (''var a=\"'' @ ''./public/assets/'' @ ''foo.js\";''))"
    by (simp add: All_less_Suc eval_nat_numeral matchTexts_def)
  have h6: "sublist ''public/assets/foo.js'' ''var a=\"./public/assets/foo.js\";''"
    by code_simp
  have h7: "joinFree ''var a=\"./public/assets/foo.js\";''" by code_simp
  note inst = replacePublicAssets_replaces_every_match
      [where env = sampleEnv and jsfile = hashedA and w = assetsWorld and w' = w'
         and ?s0.0 = "''var b = 2;''" and m = "''./public/assets/''" and u = "''var a=\"''"
         and v = "''foo.js\";''" and p = "[]" and q = "[]"
         and ?s1.0 = "''var a=\"./public/assets/foo.js\";''"
         and s = "''var a=\"./public/assets/foo.js\";''"]
  from inst h1 h2 have c1: "\<exists>contents code smap.
          files assetsWorld hashedA = Some contents
        \<and> uglify_minify sampleEnv (original hashedA) contents (sourceMapUrl hashedA)
            = Inr (code, smap)
        \<and> files w' hashedA = Some (replacePublicAssets code @ sourceMapText hashedA)
        \<and> files w' (sourcemap hashedA) = Some (replacePublicAssets smap)" by blast
  then have c1': "\<exists>code smap.
          uglify_minify sampleEnv (original hashedA) ''var a=\"./public/assets/foo.js\";''
              (sourceMapUrl hashedA) = Inr (code, smap)
        \<and> files (snd (enqueue_waterfall sampleEnv hashedA assetsWorld)) hashedA
            = Some (replacePublicAssets code @ sourceMapText hashedA)
        \<and> files (snd (enqueue_waterfall sampleEnv hashedA assetsWorld)) (sourcemap hashedA)
            = Some (replacePublicAssets smap)"
    unfolding w' f by blast
  from inst h3 have c2: "replacePublicAssets ''var b = 2;'' = ''var b = 2;''" by blast
  from inst h4 h5 have c3: "replacePublicAssets (''var a=\"'' @ ''./public/assets/'' @ ''foo.js\";'')
       = ''var a=\"'' @ ''/assets/'' @ replacePublicAssets ''foo.js\";''" by blast
  from inst h6
  have c4: "sublist ''/assets/foo.js'' (replacePublicAssets ''var a=\"./public/assets/foo.js\";'')"
    by blast
  from inst h7
  have c5: "\<not> sublist ''public/assets/'' (replacePublicAssets ''var a=\"./public/assets/foo.js\";'')"
    by blast
  have r0: "fst (enqueue_waterfall sampleEnv hashedA assetsWorld) = Returned ()"
    using h1 by simp
  show ?thesis
    by (intro conjI) (rule r0 h2 f o1 o2 c1' h3 c2 h4 c3 h6 c4 h7 c5)+
qed

text \<open>
  Claim C5, as stated, fails where it says that the path behind the tag has no \<open>public/\<close>
  prefix and is the absolute site path: the pattern takes one leading \<open>public/\<close> off and
  nothing else. For a tree below \<open>public/public\<close> the path written is
  \<open>/public/assets/x-\<close> and so on, and for an absolute root it is the file-system path
  behind one more \<open>/\<close>.
\<close>

theorem marker_path_keeps_public:
  "fst (enqueue_waterfall sampleEnv doubledPublic rootsWorld) = Returned ()
   \<and> files (snd (enqueue_waterfall sampleEnv doubledPublic rootsWorld)) doubledPublic
       = Some (''var a = 1;'' @ sourceMapPrefix @ ''/''
               @ ''public/assets/x-0123456789abcdef0123456789abcdef.js.map'')
   \<and> fst (enqueue_waterfall sampleEnv absoluteRoot rootsWorld) = Returned ()
   \<and> files (snd (enqueue_waterfall sampleEnv absoluteRoot rootsWorld)) absoluteRoot
       = Some (''var a = 1;'' @ sourceMapPrefix @ ''/''
               @ ''/srv/app/public/assets/x-0123456789abcdef0123456789abcdef.js.map'')"
  by code_simp

text \<open>
  Claim C5, amended. When the waterfall of the single-file processor runs through for a
  file that ends in \<open>.js\<close>, the content then found at the file's path is the rewritten code
  of the minifier followed by exactly: a newline, \<open>//# sourceMappingURL=\<close>, a \<open>/\<close>, and the
  path of the written source-map file with one leading \<open>./public/\<close> or \<open>public/\<close> taken off
  (the whole path when it begins with neither). What follows the \<open>/\<close> begins with \<open>public/\<close>
  exactly when the path of the source map begins with \<open>public/public/\<close> or
  \<open>./public/public/\<close>.
\<close>

theorem processed_file_ends_with_site_path:
  assumes "enqueue_waterfall env jsfile w = (Returned (), w')"
    and "suffix ''.js'' jsfile"
  shows "\<exists>contents code smap pre rest.
           files w jsfile = Some contents
         \<and> uglify_minify env (original jsfile) contents (sourceMapUrl jsfile) = Inr (code, smap)
         \<and> files w' jsfile
             = Some (replacePublicAssets code @ (CHR 0x0A # ''//# sourceMappingURL='') @ ''/'' @ rest)
         \<and> sourcemap jsfile = pre @ rest
         \<and> files w' (sourcemap jsfile) = Some (replacePublicAssets smap)
         \<and> (pre = ''./public/'' \<or> pre = ''public/'' \<or>
              pre = [] \<and> \<not> prefix ''./public/'' rest \<and> \<not> prefix ''public/'' rest)
         \<and> prefix ''public/'' rest
             = (prefix ''public/public/'' (sourcemap jsfile)
                \<or> prefix ''./public/public/'' (sourcemap jsfile))"
proof -
  from enqueue_waterfall_writes [OF assms] obtain contents code smap
    where c: "files w jsfile = Some contents"
      and u: "uglify_minify env (original jsfile) contents (sourceMapUrl jsfile) = Inr (code, smap)"
      and f0: "files w' jsfile = Some (replacePublicAssets code @ sourceMapText jsfile)"
      and m: "files w' (sourcemap jsfile) = Some (replacePublicAssets smap)" by blast
  from sourceMapUrl_cases [of jsfile] obtain pre rest
    where pr: "sourcemap jsfile = pre @ rest" "sourceMapUrl jsfile = ''/'' @ rest"
      "pre = ''./public/'' \<or> pre = ''public/'' \<or>
          pre = [] \<and> \<not> prefix ''./public/'' rest \<and> \<not> prefix ''public/'' rest" by blast
  have f: "files w' jsfile
             = Some (replacePublicAssets code @ (CHR 0x0A # ''//# sourceMappingURL='') @ ''/'' @ rest)"
    using f0 pr(2) by (simp add: sourceMapText_def sourceMapPrefix_def)
  have p: "prefix ''public/'' rest
             = (prefix ''public/public/'' (sourcemap jsfile)
                \<or> prefix ''./public/public/'' (sourcemap jsfile))"
    using sourceMapUrl_public_again [of jsfile] pr(2) by simp
  from c u f pr(1) m pr(3) p show ?thesis by blast
qed

theorem processed_file_ends_with_site_path_witness:
  "fst (enqueue_waterfall sampleEnv hashedA sampleWorld) = Returned ()
   \<and> suffix ''.js'' hashedA
   \<and> sourcemap hashedA = ''public/'' @ ''assets/app-0123456789abcdef0123456789abcdef.js.map''
   \<and> (\<exists>code rest.
         files (snd (enqueue_waterfall sampleEnv hashedA sampleWorld)) hashedA
           = Some (replacePublicAssets code @ (CHR 0x0A # ''//# sourceMappingURL='') @ ''/'' @ rest)
       \<and> prefix ''public/'' rest
           = (prefix ''public/public/'' (sourcemap hashedA)
              \<or> prefix ''./public/public/'' (sourcemap hashedA)))
   \<and> files (snd (enqueue_waterfall sampleEnv hashedA sampleWorld)) hashedA
       = Some (''var a = 1;'' @ (CHR 0x0A # ''//# sourceMappingURL='') @ ''/''
               @ ''assets/app-0123456789abcdef0123456789abcdef.js.map'')"
proof -
  obtain r w' where rw: "enqueue_waterfall sampleEnv hashedA sampleWorld = (r, w')"
    by (cases "enqueue_waterfall sampleEnv hashedA sampleWorld")
  have r0: "fst (enqueue_waterfall sampleEnv hashedA sampleWorld) = Returned ()" by code_simp
  with rw have h1: "enqueue_waterfall sampleEnv hashedA sampleWorld = (Returned (), w')"
    by simp
  have w': "snd (enqueue_waterfall sampleEnv hashedA sampleWorld) = w'" using rw by simp
  have h2: "suffix ''.js'' hashedA" by (rule sample_suffix(1))
  have sm: "sourcemap hashedA
              = ''public/'' @ ''assets/app-0123456789abcdef0123456789abcdef.js.map''"
    by code_simp
  have o: "files (snd (enqueue_waterfall sampleEnv hashedA sampleWorld)) hashedA
       = Some (''var a = 1;'' @ (CHR 0x0A # ''//# sourceMappingURL='') @ ''/''
               @ ''assets/app-0123456789abcdef0123456789abcdef.js.map'')" by code_simp
  from processed_file_ends_with_site_path [OF h1 h2] obtain code rest
    where "files w' hashedA
             = Some (replacePublicAssets code @ (CHR 0x0A # ''//# sourceMappingURL='') @ ''/'' @ rest)"
      and "prefix ''public/'' rest
             = (prefix ''public/public/'' (sourcemap hashedA)
                \<or> prefix ''./public/public/'' (sourcemap hashedA))" by blast
  then have e: "\<exists>code rest.
         files (snd (enqueue_waterfall sampleEnv hashedA sampleWorld)) hashedA
           = Some (replacePublicAssets code @ (CHR 0x0A # ''//# sourceMappingURL='') @ ''/'' @ rest)
       \<and> prefix ''public/'' rest
           = (prefix ''public/public/'' (sourcemap hashedA)
              \<or> prefix ''./public/public/'' (sourcemap hashedA))"
    unfolding w' by blast
  show ?thesis by (intro conjI) (rule r0 h2 sm e o)+
qed

section \<open>Claims about the marker test\<close>

text \<open>
  Claim C9. The two scripts' already-processed tests differ as functions of the content:
  whatever the file's path, some content passes the first script's test (the prefix occurs
  somewhere) and fails the second script's test (the content ends with the prefix followed
  by this file's map path).
\<close>

theorem marker_tests_differ:
  "\<exists>contents. alreadyProcessed_indexOf contents \<and> \<not> alreadyProcessed_slice jsfile contents"
proof -
  have "alreadyProcessed_indexOf sourceMapPrefix"
    by (simp add: alreadyProcessed_indexOf_def indexOf_sublist)
  moreover have "\<not> alreadyProcessed_slice jsfile sourceMapPrefix"
    using sourceMapUrl_slash [of jsfile]
    by (auto simp: alreadyProcessed_slice_def slice_neg_def sourceMapText_def prefix_def)
  ultimately show ?thesis by blast
qed

text \<open>
  Claim C10. The test of the first script looks only for the prefix (a newline and
  \<open>//# sourceMappingURL=\<close>) somewhere in the text; the map path behind it is not read. So
  every file that contains the prefix is skipped by the single-file processor and by the
  reconciler alike, with the file table unchanged.
\<close>

theorem prefix_anywhere_skips_both:
  assumes "files w file = Some contents"
    and "sublist sourceMapPrefix contents"
  shows "enqueue_waterfall env file w
           = (CbErr AlreadyProcessedError, logEvent (Skipping file) w)
       \<and> enqueue env file w = (Returned (), logEvent (Skipping file) w)
       \<and> nonHashed_waterfall env h file w
           = (CbErr AlreadyProcessedError, logEvent (Skipping file) w)
       \<and> nonHashed_iterator env h file w = (Returned (), logEvent (Skipping file) w)
       \<and> files (logEvent (Skipping file) w) = files w"
  using assms
  by (simp add: enqueue_waterfall_marked nonHashed_waterfall_marked enqueue_def
      nonHashed_iterator_def logEvent_def)

text \<open>The witness is a file that carries a source-map comment of another tool.\<close>

theorem prefix_anywhere_skips_both_witness:
  "files (fs_writeFile plainA (''var j=1;'' @ sourceMapPrefix @ ''jquery.min.map'') sampleTree)
      plainA = Some (''var j=1;'' @ sourceMapPrefix @ ''jquery.min.map'')
   \<and> sublist sourceMapPrefix (''var j=1;'' @ sourceMapPrefix @ ''jquery.min.map'')
   \<and> enqueue sampleEnv plainA
        (fs_writeFile plainA (''var j=1;'' @ sourceMapPrefix @ ''jquery.min.map'') sampleTree)
       = (Returned (), logEvent (Skipping plainA)
           (fs_writeFile plainA (''var j=1;'' @ sourceMapPrefix @ ''jquery.min.map'') sampleTree))
   \<and> nonHashed_iterator sampleEnv sampleHash plainA
        (fs_writeFile plainA (''var j=1;'' @ sourceMapPrefix @ ''jquery.min.map'') sampleTree)
       = (Returned (), logEvent (Skipping plainA)
           (fs_writeFile plainA (''var j=1;'' @ sourceMapPrefix @ ''jquery.min.map'') sampleTree))"
proof -
  have f: "files (fs_writeFile plainA (''var j=1;'' @ sourceMapPrefix @ ''jquery.min.map'')
             sampleTree) plainA = Some (''var j=1;'' @ sourceMapPrefix @ ''jquery.min.map'')"
    by (simp add: fs_writeFile_def)
  have s: "sublist sourceMapPrefix (''var j=1;'' @ sourceMapPrefix @ ''jquery.min.map'')"
    by (rule sublist_appendI)
  from prefix_anywhere_skips_both [OF f s, of sampleEnv sampleHash] f s show ?thesis by blast
qed

section \<open>Claims about the reconciler and about errors\<close>

text \<open>
  Claim C7, as stated, fails where it says that the miss aborts only that file: the error
  ends the series. In the sample tree \<open>lib.js\<close> has no twin and \<open>app.js\<close> has one; listed
  behind \<open>lib.js\<close>, \<open>app.js\<close> is left as it was, while without \<open>lib.js\<close> in the list it
  receives the minified text of its twin.
\<close>

theorem miss_ends_the_series:
  "fst (forEachSeries (nonHashed_iterator sampleEnv sampleHash) [plainB, plainA] sampleDrained)
     = CbErr (Error ''Could not find original hashed file for: public/assets/lib.js'')
   \<and> files (snd (forEachSeries (nonHashed_iterator sampleEnv sampleHash) [plainB, plainA]
                    sampleDrained)) plainA
     = Some ''var a = 1;''
   \<and> fst (forEachSeries (nonHashed_iterator sampleEnv sampleHash) [plainA] sampleDrained)
     = Returned ()
   \<and> files (snd (forEachSeries (nonHashed_iterator sampleEnv sampleHash) [plainA]
                    sampleDrained)) plainA
     = Some (''var a = 1;'' @ sourceMapText hashedA)"
  by code_simp

text \<open>
  Claim C7, amended. For every non-fingerprinted file without the marker whose text has no
  entry in the content table (and is not the name of a member that every object inherits),
  the reconciler's waterfall for that file fails with the error \<open>Could not find original
  hashed file for:\<close> followed by the file's path; the file table stays as it is, so the
  file is not renamed; and the series over the non-fingerprinted files ends with that
  error, the files listed behind it not being processed.
\<close>

theorem miss_is_reported_without_rename:
  assumes "files w jsfile = Some contents"
    and "\<not> sublist sourceMapPrefix contents"
    and "h contents = None"
    and "contents \<notin> set objectPrototypeKeys"
  shows "nonHashed_waterfall env h jsfile w
           = (CbErr (Error (''Could not find original hashed file for: '' @ jsfile)),
              logEvent (Generating jsfile) w)
       \<and> files (logEvent (Generating jsfile) w) = files w
       \<and> forEachSeries (nonHashed_iterator env h) (jsfile # rest) w
           = (CbErr (Error (''Could not find original hashed file for: '' @ jsfile)),
              logEvent (Generating jsfile) w)"
proof -
  have "falsy (hashGet h contents)" using assms(3,4) by (simp add: hashGet_def)
  from nonHashed_waterfall_miss [OF assms(1,2) this, of env]
  show ?thesis
    by (simp add: nonHashed_iterator_def andThen_def logEvent_def missText_def)
qed

theorem miss_is_reported_without_rename_witness:
  "files sampleDrained plainB = Some ''var b = 2;''
   \<and> \<not> sublist sourceMapPrefix ''var b = 2;''
   \<and> sampleHash ''var b = 2;'' = None
   \<and> ''var b = 2;'' \<notin> set objectPrototypeKeys
   \<and> nonHashed_waterfall sampleEnv sampleHash plainB sampleDrained
        = (CbErr (Error (''Could not find original hashed file for: '' @ plainB)),
           logEvent (Generating plainB) sampleDrained)"
  using miss_is_reported_without_rename
      [where w = sampleDrained and jsfile = plainB and contents = "''var b = 2;''"
        and h = sampleHash and env = sampleEnv and rest = "[plainA]"]
    sample_drained_files(7) unmarked_b sampleHash_b not_inherited_b
  by blast




section \<open>Claims about reuse and about a second run\<close>




text \<open>
  Claim C2, as stated, fails after a first run in which a file failed: \<open>lib.js\<close> has no
  twin, the first run ends with its miss, and in the second run \<open>lib.js\<close> is not skipped
  but looked up again (the console shows \<open>Generating\<close>, not \<open>Skipping\<close>) and misses again.
\<close>

theorem second_run_repeats_failure:
  "fst (run sampleEnv [hashedA, plainB] sampleTree)
      = Thrown (Error ''Could not find original hashed file for: public/assets/lib.js'')
   \<and> fst (run sampleEnv [hashedA, plainB] (snd (run sampleEnv [hashedA, plainB] sampleTree)))
      = Thrown (Error ''Could not find original hashed file for: public/assets/lib.js'')
   \<and> console (snd (run sampleEnv [hashedA, plainB]
                      (snd (run sampleEnv [hashedA, plainB] sampleTree))))
      = [Generating hashedA, Generating plainB, Skipping hashedA, Generating plainB]"
  by code_simp

text \<open>
  Claim C2, amended. Let the first run start on a tree without \<open>.orig.js\<close> files, with at
  least one fingerprinted file and no \<open>.orig\<close> inside a listed path, let \<open>glob\<close> list only
  existing \<open>.orig.js\<close> files, and let the first run end without any failure. Then every
  listed file is marked afterwards, and a second run over the same listing reports no
  failure, leaves the file table as it is and takes the skip branch for every file: the
  console gains one \<open>Skipping\<close> line per fingerprinted file, one per non-fingerprinted
  file, and the closing line.
\<close>

theorem second_run_skips_everything:
  assumes "\<forall>fs. \<forall>p \<in> set (glob_orig env fs). fs p \<noteq> None \<and> suffix ''.orig.js'' p"
    and "\<forall>p. suffix ''.orig.js'' p \<longrightarrow> files w p = None"
    and "\<forall>f \<in> set globbed. \<not> sublist ''.orig'' f"
    and "hashedFiles globbed \<noteq> []"
    and "fst (run env globbed w) = Returned rs"
    and "\<forall>r \<in> set rs. r = None"
  shows "(\<forall>f \<in> set (hashedFiles globbed) \<union> set (nonHashedFiles globbed).
            marked (snd (run env globbed w)) f)
       \<and> fst (run env globbed (snd (run env globbed w)))
           = Returned (map (\<lambda>_. None) (hashedFiles globbed))
       \<and> files (snd (run env globbed (snd (run env globbed w))))
           = files (snd (run env globbed w))
       \<and> console (snd (run env globbed (snd (run env globbed w))))
           = console (snd (run env globbed w))
               @ map Skipping (hashedFiles globbed) @ map Skipping (nonHashedFiles globbed)
               @ [AllProcessed]"
proof -
  have "run env globbed w = (Returned rs, snd (run env globbed w))"
    using assms(5) by (cases "run env globbed w") simp
  from second_run_skips [OF assms(1,2,3,4) this assms(6)]
  show ?thesis by (simp add: skipAll_def logEvent_def)
qed

theorem second_run_skips_everything_witness:
  "\<not> sublist ''.orig'' hashedA \<and> \<not> sublist ''.orig'' plainA
   \<and> hashedFiles [hashedA, plainA] = [hashedA] \<and> nonHashedFiles [hashedA, plainA] = [plainA]
   \<and> fst (run sampleEnv [hashedA, plainA] sampleWorld) = Returned [None]
   \<and> marked (snd (run sampleEnv [hashedA, plainA] sampleWorld)) hashedA
   \<and> marked (snd (run sampleEnv [hashedA, plainA] sampleWorld)) plainA
   \<and> fst (run sampleEnv [hashedA, plainA] (snd (run sampleEnv [hashedA, plainA] sampleWorld)))
        = Returned (map (\<lambda>_. None) (hashedFiles [hashedA, plainA]))
   \<and> files (snd (run sampleEnv [hashedA, plainA]
                    (snd (run sampleEnv [hashedA, plainA] sampleWorld))))
        = files (snd (run sampleEnv [hashedA, plainA] sampleWorld))"
proof -
  have c: "\<forall>f \<in> set [hashedA, plainA]. \<not> sublist ''.orig'' f" by code_simp
  have s: "hashedFiles [hashedA, plainA] \<noteq> []" by code_simp
  have r: "fst (run sampleEnv [hashedA, plainA] sampleWorld) = Returned [None]" by code_simp
  have n: "\<forall>r \<in> set [None :: error option]. r = None" by simp
  have h: "hashedFiles [hashedA, plainA] = [hashedA]"
    "nonHashedFiles [hashedA, plainA] = [plainA]" by code_simp+
  from second_run_skips_everything [OF sample_glob_sound sampleWorld_fresh c s r n] c h r
  show ?thesis by simp
qed

end
